theory Spec2Isabelle
  imports Main
begin

section \<open>Text and characters\<close>

text \<open>
  A piece of text is a \<^typ>\<open>string\<close>; a character of the model stands for a code point
  below 256. The files are opened in text mode, so the text the program sees has its
  line ends already translated to the single character \<open>NL\<close>.
\<close>

abbreviation NL :: char where "NL \<equiv> CHR 0x0A"

text \<open>\<open>str.isspace\<close>, which is also the class \<open>\s\<close> of the pattern language.\<close>

definition is_space :: "char \<Rightarrow> bool" where
  "is_space c \<longleftrightarrow> c \<in> set [CHR 0x09, CHR 0x0A, CHR 0x0B, CHR 0x0C, CHR 0x0D,
     CHR 0x1C, CHR 0x1D, CHR 0x1E, CHR 0x1F, CHR 0x20, CHR 0x85, CHR 0xA0]"

text \<open>The class \<open>\d\<close>.\<close>

definition is_digit :: "char \<Rightarrow> bool" where
  "is_digit c \<longleftrightarrow> c \<in> set ''0123456789''"

text \<open>\<open>str.lower\<close>, character by character.\<close>

definition lower_char :: "char \<Rightarrow> char" where
  "lower_char c =
     (let n = (of_char c :: nat) in
      if (65 \<le> n \<and> n \<le> 90) \<or> (192 \<le> n \<and> n \<le> 222 \<and> n \<noteq> 215)
      then char_of (n + 32) else c)"

definition lower :: "string \<Rightarrow> string" where
  "lower s = map lower_char s"

text \<open>\<open>str.strip\<close> with no argument.\<close>

definition strip :: "string \<Rightarrow> string" where
  "strip s = rev (dropWhile is_space (rev (dropWhile is_space s)))"

text \<open>The operator \<open>in\<close> on two strings: \<open>contains s t\<close> is \<open>s in t\<close>.\<close>

fun contains :: "string \<Rightarrow> string \<Rightarrow> bool" where
  "contains s [] = (s = [])"
| "contains s (c # cs) = (take (length s) (c # cs) = s \<or> contains s cs)"

section \<open>The pattern language\<close>

text \<open>
  The patterns of the program use character classes, the greedy repeats \<open>*\<close>, \<open>+\<close>,
  \<open>?\<close> and \<open>{n}\<close>, the lazy repeat \<open>*?\<close>, groups and concatenation. Every repeat but
  \<open>?\<close> is applied to a single character class.
\<close>

datatype cls = Space | Digit | Dot | Lit char | One_of "char list"

fun in_cls :: "cls \<Rightarrow> char \<Rightarrow> bool" where
  "in_cls Space c = is_space c"
| "in_cls Digit c = is_digit c"
| "in_cls Dot c = (c \<noteq> NL)"
| "in_cls (Lit a) c = (c = a)"
| "in_cls (One_of as) c = (c \<in> set as)"

datatype rx =
    Eps
  | Atom cls
  | Star cls
  | Plus cls
  | Lazy_star cls
  | Times nat cls
  | Opt rx
  | Grp nat rx
  | Cat rx rx

definition seq :: "rx list \<Rightarrow> rx" where
  "seq rs = foldr Cat rs Eps"

definition lits :: "string \<Rightarrow> rx list" where
  "lits s = map (\<lambda>c. Atom (Lit c)) s"

type_synonym groups = "nat \<rightharpoonup> string"

text \<open>
  The matcher is the backtracking matcher of the library in continuation-passing style:
  \<open>k\<close> is the rest of the pattern, the result is the first success in the order in
  which the alternatives are tried. A greedy repeat tries the longest run first and gives
  characters back one at a time; a lazy repeat tries the shortest first.
\<close>

primrec star_max :: "(char \<Rightarrow> bool) \<Rightarrow> string \<Rightarrow> (string \<Rightarrow> 'a option) \<Rightarrow> 'a option" where
  "star_max p [] k = k []"
| "star_max p (c # cs) k =
     (if p c then (case star_max p cs k of Some r \<Rightarrow> Some r | None \<Rightarrow> k (c # cs))
      else k (c # cs))"

primrec star_min :: "(char \<Rightarrow> bool) \<Rightarrow> string \<Rightarrow> (string \<Rightarrow> 'a option) \<Rightarrow> 'a option" where
  "star_min p [] k = k []"
| "star_min p (c # cs) k =
     (case k (c # cs) of Some r \<Rightarrow> Some r
      | None \<Rightarrow> if p c then star_min p cs k else None)"

primrec times :: "nat \<Rightarrow> (char \<Rightarrow> bool) \<Rightarrow> string \<Rightarrow> (string \<Rightarrow> 'a option) \<Rightarrow> 'a option" where
  "times 0 p s k = k s"
| "times (Suc n) p s k =
     (case s of [] \<Rightarrow> None | c # cs \<Rightarrow> if p c then times n p cs k else None)"

primrec rmatch :: "rx \<Rightarrow> string \<Rightarrow> groups \<Rightarrow> (string \<Rightarrow> groups \<Rightarrow> 'a option) \<Rightarrow> 'a option" where
  "rmatch Eps s g k = k s g"
| "rmatch (Atom c) s g k =
     (case s of [] \<Rightarrow> None | x # xs \<Rightarrow> if in_cls c x then k xs g else None)"
| "rmatch (Star c) s g k = star_max (in_cls c) s (\<lambda>s'. k s' g)"
| "rmatch (Plus c) s g k =
     (case s of [] \<Rightarrow> None
      | x # xs \<Rightarrow> if in_cls c x then star_max (in_cls c) xs (\<lambda>s'. k s' g) else None)"
| "rmatch (Lazy_star c) s g k = star_min (in_cls c) s (\<lambda>s'. k s' g)"
| "rmatch (Times n c) s g k = times n (in_cls c) s (\<lambda>s'. k s' g)"
| "rmatch (Opt r) s g k =
     (case rmatch r s g k of Some x \<Rightarrow> Some x | None \<Rightarrow> k s g)"
| "rmatch (Grp n r) s g k =
     rmatch r s g (\<lambda>s' g'. k s' (g'(n \<mapsto> take (length s - length s') s)))"
| "rmatch (Cat a b) s g k = rmatch a s g (\<lambda>s' g'. rmatch b s' g' k)"

text \<open>A match at the start of \<open>s\<close>: the groups and the text after the match.\<close>

definition match_at :: "rx \<Rightarrow> string \<Rightarrow> (groups \<times> string) option" where
  "match_at r s = rmatch r s Map.empty (\<lambda>s' g. Some (g, s'))"

text \<open>
  \<open>re.findall\<close>: the matches from left to right, each search starting where the match
  before it ended. After an empty match the scan moves on by one character.
\<close>

fun findall :: "rx \<Rightarrow> string \<Rightarrow> groups list" where
  "findall r [] = (case match_at r [] of None \<Rightarrow> [] | Some (g, _) \<Rightarrow> [g])"
| "findall r (c # cs) =
     (case match_at r (c # cs) of
        None \<Rightarrow> findall r cs
      | Some (g, rest) \<Rightarrow> g # findall r (if length rest \<le> length cs then rest else cs))"

text \<open>\<open>re.sub\<close> with a replacement text that has no escape in it.\<close>

fun re_sub :: "rx \<Rightarrow> string \<Rightarrow> string \<Rightarrow> string" where
  "re_sub r repl [] = (case match_at r [] of None \<Rightarrow> [] | Some _ \<Rightarrow> repl)"
| "re_sub r repl (c # cs) =
     (case match_at r (c # cs) of
        None \<Rightarrow> c # re_sub r repl cs
      | Some (g, rest) \<Rightarrow>
          if length rest \<le> length cs then repl @ re_sub r repl rest
          else repl @ c # re_sub r repl cs)"

text \<open>The text of a group in the result of \<open>findall\<close>: empty for a group that took no part.\<close>

definition grp :: "groups \<Rightarrow> nat \<Rightarrow> string" where
  "grp g n = (case g n of None \<Rightarrow> [] | Some s \<Rightarrow> s)"

section \<open>The task parser\<close>

record task =
  ident :: string
  description :: string
  is_parallel :: bool
  story :: "string option"
  completed :: bool

text \<open>\<open>-\s*\[\s*\]\s*(T\d{3})\s*(\[P\])?\s*(\[US\d+\])?\s*(.+)\<close>\<close>

definition task_pattern :: rx where
  "task_pattern = seq
     [Atom (Lit CHR ''-''), Star Space, Atom (Lit CHR ''[''), Star Space,
      Atom (Lit CHR '']''), Star Space,
      Grp 1 (seq [Atom (Lit CHR ''T''), Times 3 Digit]), Star Space,
      Opt (Grp 2 (seq (lits ''[P]''))), Star Space,
      Opt (Grp 3 (seq (lits ''[US'' @ [Plus Digit, Atom (Lit CHR '']'')]))), Star Space,
      Grp 4 (Plus Dot)]"

text \<open>The record built from one match; \<open>story_marker[3:-1]\<close> drops \<open>[US\<close> and \<open>]\<close>.\<close>

definition mk_task :: "groups \<Rightarrow> task" where
  "mk_task g =
     \<lparr>ident = grp g 1,
      description = strip (grp g 4),
      is_parallel = (grp g 2 \<noteq> []),
      story = (if grp g 3 \<noteq> [] then Some (butlast (drop 3 (grp g 3))) else None),
      completed = False\<rparr>"

definition parse_content :: "string \<Rightarrow> task list" where
  "parse_content content = map mk_task (findall task_pattern content)"

section \<open>Phases and the simulated execution\<close>

text \<open>The truth value of \<open>task['story']\<close>: \<open>None\<close> and the empty string are false.\<close>

definition has_story :: "task \<Rightarrow> bool" where
  "has_story t \<longleftrightarrow> (case story t of None \<Rightarrow> False | Some s \<Rightarrow> s \<noteq> [])"

definition phase_of :: "task \<Rightarrow> string" where
  "phase_of t =
     (if \<not> has_story t \<and> contains ''setup'' (lower (description t)) then ''setup''
      else if \<not> has_story t \<and> contains ''foundational'' (lower (description t))
        then ''foundational''
      else if has_story t then (case story t of Some s \<Rightarrow> s | None \<Rightarrow> [])
      else ''polish'')"

text \<open>
  The task records are objects that the loops mutate in place, and the list
  \<open>phase_tasks\<close> holds references to them. The store is the list \<open>tasks\<close>; a reference
  is an index into it. What is printed is kept as a trace.
\<close>

datatype event = Phase_done string | Task_run nat

record exec_state =
  store :: "task list"
  trace :: "event list"

definition execute_single_task :: "nat \<Rightarrow> exec_state \<Rightarrow> exec_state" where
  "execute_single_task i st =
     st\<lparr>store := (store st)[i := (store st ! i)\<lparr>completed := True\<rparr>],
        trace := trace st @ [Task_run i]\<rparr>"

definition execute_phase_tasks :: "nat list \<Rightarrow> exec_state \<Rightarrow> exec_state" where
  "execute_phase_tasks phase_tasks st =
     (let parallel_tasks = filter (\<lambda>i. is_parallel (store st ! i)) phase_tasks;
          sequential_tasks = filter (\<lambda>i. \<not> is_parallel (store st ! i)) phase_tasks
      in fold execute_single_task sequential_tasks
           (fold execute_single_task parallel_tasks st))"

definition finish_phase :: "string \<Rightarrow> nat list \<Rightarrow> exec_state \<Rightarrow> exec_state" where
  "finish_phase current_phase phase_tasks st =
     (if phase_tasks \<noteq> []
      then execute_phase_tasks phase_tasks (st\<lparr>trace := trace st @ [Phase_done current_phase]\<rparr>)
      else st)"

fun group_loop :: "nat list \<Rightarrow> string \<Rightarrow> nat list \<Rightarrow> exec_state \<Rightarrow> string \<times> nat list \<times> exec_state" where
  "group_loop [] current_phase phase_tasks st = (current_phase, phase_tasks, st)"
| "group_loop (i # is) current_phase phase_tasks st =
     (let phase = phase_of (store st ! i) in
      if phase \<noteq> current_phase
      then group_loop is phase [i] (finish_phase current_phase phase_tasks st)
      else group_loop is current_phase (phase_tasks @ [i]) st)"

definition execute_implementation :: "task list \<Rightarrow> exec_state" where
  "execute_implementation tasks =
     (case group_loop [0..<length tasks] ''unknown'' [] \<lparr>store = tasks, trace = []\<rparr> of
        (current_phase, phase_tasks, st) \<Rightarrow> finish_phase current_phase phase_tasks st)"

text \<open>The references of the executed tasks, in the order of execution.\<close>

fun runs_of :: "event list \<Rightarrow> nat list" where
  "runs_of [] = []"
| "runs_of (Task_run i # es) = i # runs_of es"
| "runs_of (Phase_done p # es) = runs_of es"

definition execution_order :: "task list \<Rightarrow> nat list" where
  "execution_order tasks = runs_of (trace (execute_implementation tasks))"

section \<open>Rewriting the tasks file\<close>

datatype exn =
    FileNotFoundError | ValueError | IsADirectoryError | PermissionError
  | AttributeError | EOFError | Re_error

text \<open>
  The pattern of the rewrite is built from text: the identifier and the description of
  the task are pasted into it and read as patterns. The fragment interpreted here is:
  ordinary characters and the dot, each followed by at most one of \<open>+\<close>, \<open>*\<close>, \<open>?\<close>.
  \<open>compile_text\<close> is \<open>None\<close> for a text outside the fragment.
\<close>

definition ordinary :: "char \<Rightarrow> bool" where
  "ordinary c \<longleftrightarrow> c \<notin> set ''.^$*+?{}[]|()'' \<and> c \<noteq> CHR 0x5C"

definition atom_of :: "char \<Rightarrow> cls" where
  "atom_of c = (if c = CHR ''.'' then Dot else Lit c)"

definition repeat_of :: "char \<Rightarrow> cls \<Rightarrow> rx" where
  "repeat_of q a = (if q = CHR ''+'' then Plus a else if q = CHR ''*'' then Star a else Opt (Atom a))"

fun compile_text :: "string \<Rightarrow> rx list option" where
  "compile_text [] = Some []"
| "compile_text [c] = (if ordinary c \<or> c = CHR ''.'' then Some [Atom (atom_of c)] else None)"
| "compile_text (c # q # cs) =
     (if \<not> (ordinary c \<or> c = CHR ''.'') then None
      else if q \<in> set ''+*?''
        then map_option ((#) (repeat_of q (atom_of c))) (compile_text cs)
      else map_option ((#) (Atom (atom_of c))) (compile_text (q # cs)))"

text \<open>\<open>(-\s*\[\s*\]\s*{id}\s*.*?{description})\<close>\<close>

definition update_pattern :: "task \<Rightarrow> rx option" where
  "update_pattern t =
     (case (compile_text (ident t), compile_text (description t)) of
        (Some a, Some b) \<Rightarrow>
          Some (Grp 1 (seq ([Atom (Lit CHR ''-''), Star Space, Atom (Lit CHR ''[''), Star Space,
                             Atom (Lit CHR '']''), Star Space] @ a @
                            [Star Space, Lazy_star Dot] @ b)))
      | _ \<Rightarrow> None)"

definition replacement :: "task \<Rightarrow> string" where
  "replacement t =
     ''- [X] '' @ ident t
     @ (if is_parallel t then '' [P]'' else [])
     @ (if has_story t then '' ['' @ (case story t of Some s \<Rightarrow> s | None \<Rightarrow> []) @ '']'' else [])
     @ '' '' @ description t"

text \<open>
  One call of \<open>re.sub\<close>. A pattern outside the fragment, or a replacement with a
  backslash in it, is left to \<open>lib\<close>: what the library returns or raises there.
\<close>

type_synonym re_lib = "task \<Rightarrow> string \<Rightarrow> exn + string"

definition sub_task :: "re_lib \<Rightarrow> task \<Rightarrow> string \<Rightarrow> exn + string" where
  "sub_task lib t content =
     (case update_pattern t of
        Some r \<Rightarrow>
          if CHR 0x5C \<in> set (replacement t) then lib t content
          else Inr (re_sub r (replacement t) content)
      | None \<Rightarrow> lib t content)"

fun update_loop :: "re_lib \<Rightarrow> task list \<Rightarrow> string \<Rightarrow> exn + string" where
  "update_loop lib [] content = Inr content"
| "update_loop lib (t # ts) content =
     (if completed t
      then (case sub_task lib t content of
              Inl e \<Rightarrow> Inl e
            | Inr content' \<Rightarrow> update_loop lib ts content')
      else update_loop lib ts content)"

section \<open>Files\<close>

text \<open>
  A path is the text of the path; \<open>join\<close> is the operator \<open>/\<close> of \<open>pathlib\<close> on a
  directory written without a trailing separator. A directory carries the names of its
  entries, a file its text and whether it may be written.
\<close>

type_synonym path = string

datatype node = Dir "string list" | File string bool

type_synonym files = "path \<rightharpoonup> node"

definition join :: "path \<Rightarrow> string \<Rightarrow> path" where
  "join d n = d @ ''/'' @ n"

definition read_file :: "files \<Rightarrow> path \<Rightarrow> exn + string" where
  "read_file fs p =
     (case fs p of
        None \<Rightarrow> Inl FileNotFoundError
      | Some (Dir _) \<Rightarrow> Inl IsADirectoryError
      | Some (File content _) \<Rightarrow> Inr content)"

definition write_file :: "files \<Rightarrow> path \<Rightarrow> string \<Rightarrow> exn + files" where
  "write_file fs p content =
     (case fs p of
        None \<Rightarrow> Inr (fs(p \<mapsto> File content True))
      | Some (Dir _) \<Rightarrow> Inl IsADirectoryError
      | Some (File _ w) \<Rightarrow> if w then Inr (fs(p \<mapsto> File content w)) else Inl PermissionError)"

definition append_file :: "files \<Rightarrow> path \<Rightarrow> string \<Rightarrow> exn + files" where
  "append_file fs p content =
     (case fs p of
        None \<Rightarrow> Inr (fs(p \<mapsto> File content True))
      | Some (Dir _) \<Rightarrow> Inl IsADirectoryError
      | Some (File old w) \<Rightarrow>
          if w then Inr (fs(p \<mapsto> File (old @ content) w)) else Inl PermissionError)"

text \<open>The object: its attributes. An attribute holding a path is \<open>None\<close> until it is set.\<close>

record implementer =
  feature_dir :: "path option"
  feature_spec :: "path option"
  impl_plan :: "path option"
  tasks :: "path option"
  checklists_dir :: "path option"

text \<open>The truth value of an optional string.\<close>

definition truthy :: "string option \<Rightarrow> bool" where
  "truthy x \<longleftrightarrow> (case x of None \<Rightarrow> False | Some s \<Rightarrow> s \<noteq> [])"

text \<open>
  What the program takes from outside the files: the outcome of the prerequisite
  script, whether \<open>git\<close> finds a repository, the feature directory found from the
  working directory, the line typed at the prompt (\<open>None\<close> at end of input), and the
  library on patterns outside the interpreted fragment.
\<close>

datatype script_result =
    Script_raises
  | Script_fails
  | Script_ok "string option option" "string list"

record env =
  script :: script_result
  git_repo :: bool
  found_feature_dir :: "path option"
  response :: "string option"
  lib :: re_lib

section \<open>The checklist validator\<close>

text \<open>\<open>-\s*\[([ xX])\]\s*(.+)\<close>\<close>

definition checklist_pattern :: rx where
  "checklist_pattern = seq
     [Atom (Lit CHR ''-''), Star Space, Atom (Lit CHR ''[''),
      Grp 1 (Atom (One_of '' xX'')), Atom (Lit CHR '']''), Star Space,
      Grp 2 (Plus Dot)]"

record stats =
  total :: nat
  completed_items :: nat
  incomplete :: nat

fun count_items :: "groups list \<Rightarrow> nat \<times> nat \<Rightarrow> nat \<times> nat" where
  "count_items [] (completed_n, incomplete_n) = (completed_n, incomplete_n)"
| "count_items (g # gs) (completed_n, incomplete_n) =
     (if lower (grp g 1) \<in> set [''x'', ''X'']
      then count_items gs (completed_n + 1, incomplete_n)
      else count_items gs (completed_n, incomplete_n + 1))"

definition checklist_stats :: "string \<Rightarrow> stats" where
  "checklist_stats content =
     (let all_items = findall checklist_pattern content in
      case count_items all_items (0, 0) of
        (completed_n, incomplete_n) \<Rightarrow>
          \<lparr>total = length all_items, completed_items = completed_n,
           incomplete = incomplete_n\<rparr>)"

text \<open>The dictionary \<open>checklist_status\<close>: a key set again keeps its place.\<close>

fun dict_set :: "(string \<times> stats) list \<Rightarrow> string \<Rightarrow> stats \<Rightarrow> (string \<times> stats) list" where
  "dict_set [] k v = [(k, v)]"
| "dict_set ((k', v') # d) k v = (if k' = k then (k, v) # d else (k', v') # dict_set d k v)"

fun scan_checklists :: "files \<Rightarrow> path \<Rightarrow> string list \<Rightarrow> (string \<times> stats) list
    \<Rightarrow> exn + (string \<times> stats) list" where
  "scan_checklists fs dir [] d = Inr d"
| "scan_checklists fs dir (n # ns) d =
     (case read_file fs (join dir n) of
        Inl e \<Rightarrow> Inl e
      | Inr content \<Rightarrow> scan_checklists fs dir ns (dict_set d n (checklist_stats content)))"

datatype status = PASS | FAIL

record row =
  name :: string
  counts :: stats
  verdict :: status

definition status_of :: "stats \<Rightarrow> status" where
  "status_of st = (if incomplete st = 0 then PASS else FAIL)"

definition table :: "(string \<times> stats) list \<Rightarrow> row list" where
  "table d = map (\<lambda>(n, st). \<lparr>name = n, counts = st, verdict = status_of st\<rparr>) d"

fun all_passed :: "(string \<times> stats) list \<Rightarrow> bool \<Rightarrow> bool" where
  "all_passed [] acc = acc"
| "all_passed ((n, st) # d) acc = all_passed d (if incomplete st > 0 then False else acc)"

definition is_md :: "string \<Rightarrow> bool" where
  "is_md n \<longleftrightarrow> 3 \<le> length n \<and> drop (length n - 3) n = ''.md''"

text \<open>The result: the table that is printed and the answer.\<close>

definition check_checklists_status :: "env \<Rightarrow> implementer \<Rightarrow> files
    \<Rightarrow> exn + (implementer \<times> row list \<times> bool)" where
  "check_checklists_status e impl fs =
     (case feature_dir impl of
        None \<Rightarrow> Inr (impl, [], True)
      | Some fd \<Rightarrow>
          if fd = [] then Inr (impl, [], True)
          else
            let dir = join fd ''checklists'';
                impl' = impl\<lparr>checklists_dir := Some dir\<rparr>
            in (case fs dir of
                  None \<Rightarrow> Inr (impl', [], True)
                | Some (File _ _) \<Rightarrow> Inr (impl', [], True)
                | Some (Dir entries) \<Rightarrow>
                    (case scan_checklists fs dir (filter is_md entries) [] of
                       Inl x \<Rightarrow> Inl x
                     | Inr d \<Rightarrow>
                         if \<not> all_passed d True
                         then (case response e of
                                 None \<Rightarrow> Inl EOFError
                               | Some line \<Rightarrow>
                                   Inr (impl', table d,
                                        lower (strip line) \<in> set [''yes'', ''y'', ''proceed'', ''continue'']))
                         else Inr (impl', table d, True))))"

section \<open>The pipeline\<close>

definition script_path :: path where
  "script_path = ''.specify/scripts/powershell/check-prerequisites.ps1''"

definition run_check_prerequisites :: "env \<Rightarrow> implementer \<Rightarrow> files
    \<Rightarrow> implementer \<times> string list" where
  "run_check_prerequisites e impl fs =
     (if fs script_path \<noteq> None
      then (case script e of
              Script_ok fd docs \<Rightarrow>
                (impl\<lparr>feature_dir := (case fd of None \<Rightarrow> feature_dir impl | Some v \<Rightarrow> v)\<rparr>, docs)
            | Script_fails \<Rightarrow> (impl, [])
            | Script_raises \<Rightarrow> (impl, []))
      else (impl, []))"

definition load_implementation_context :: "implementer \<Rightarrow> files \<Rightarrow> exn + implementer" where
  "load_implementation_context impl fs =
     (case feature_dir impl of
        None \<Rightarrow> Inl ValueError
      | Some fd \<Rightarrow>
          if fd = [] then Inl ValueError
          else
            let impl' = impl\<lparr>feature_spec := Some (join fd ''spec.md''),
                             impl_plan := Some (join fd ''plan.md''),
                             tasks := Some (join fd ''tasks.md'')\<rparr>
            in if fs (join fd ''plan.md'') = None \<or> fs (join fd ''tasks.md'') = None
               then Inl FileNotFoundError
               else Inr impl')"

definition text_lines :: "string list \<Rightarrow> string" where
  "text_lines ls = concat (map (\<lambda>l. l @ [NL]) ls)"

definition python_ignore :: string where
  "python_ignore = NL # text_lines [''# Python'', ''__pycache__/'', ''*.pyc'', ''.venv/'',
     ''venv/'', ''dist/'', ''*.egg-info/'', ''.env*'', ''*.log'']"

definition js_ignore :: string where
  "js_ignore = NL # text_lines [''# Node.js'', ''node_modules/'', ''dist/'', ''build/'',
     ''*.log'', ''.env*'']"

definition java_ignore :: string where
  "java_ignore = NL # text_lines [''# Java'', ''target/'', ''*.class'', ''*.jar'',
     ''.gradle/'', ''build/'']"

definition tech_indicators :: "string \<Rightarrow> string list" where
  "tech_indicators plan_content =
     (if list_ex (\<lambda>tech. contains tech plan_content) [''python'', ''pip'', ''venv'']
      then [python_ignore] else [])
     @ (if list_ex (\<lambda>tech. contains tech plan_content)
             [''node'', ''npm'', ''yarn'', ''javascript'', ''typescript'']
        then [js_ignore] else [])
     @ (if list_ex (\<lambda>tech. contains tech plan_content) [''java'', ''gradle'', ''maven'']
        then [java_ignore] else [])"

fun create_ignores :: "string list \<Rightarrow> files \<Rightarrow> exn option \<times> files" where
  "create_ignores [] fs = (None, fs)"
| "create_ignores (patterns # rest) fs =
     (case append_file fs ''.gitignore'' patterns of
        Inl x \<Rightarrow> (Some x, fs)
      | Inr fs' \<Rightarrow> create_ignores rest fs')"

text \<open>The exception that leaves the function, if any, and the files as they are then.\<close>

definition project_setup_verification :: "env \<Rightarrow> implementer \<Rightarrow> files \<Rightarrow> exn option \<times> files" where
  "project_setup_verification e impl fs =
     (let fs1 = (if git_repo e \<and> fs ''.gitignore'' = None
                 then fs(''.gitignore'' \<mapsto> File [] True) else fs)
      in case impl_plan impl of
           None \<Rightarrow> (Some AttributeError, fs1)
         | Some plan \<Rightarrow>
             if fs1 plan \<noteq> None
             then (case read_file fs1 plan of
                     Inl x \<Rightarrow> (Some x, fs1)
                   | Inr content \<Rightarrow> create_ignores (tech_indicators (lower content)) fs1)
             else (None, fs1))"

definition parse_tasks :: "implementer \<Rightarrow> files \<Rightarrow> exn + task list" where
  "parse_tasks impl fs =
     (case tasks impl of
        None \<Rightarrow> Inl FileNotFoundError
      | Some p \<Rightarrow>
          if fs p = None then Inl FileNotFoundError
          else (case read_file fs p of
                  Inl x \<Rightarrow> Inl x
                | Inr content \<Rightarrow> Inr (parse_content content)))"

definition update_tasks_file :: "re_lib \<Rightarrow> implementer \<Rightarrow> task list \<Rightarrow> files \<Rightarrow> exn + files" where
  "update_tasks_file l impl ts fs =
     (case tasks impl of
        None \<Rightarrow> Inr fs
      | Some p \<Rightarrow>
          if fs p = None then Inr fs
          else (case read_file fs p of
                  Inl x \<Rightarrow> Inl x
                | Inr content \<Rightarrow>
                    (case update_loop l ts content of
                       Inl x \<Rightarrow> Inl x
                     | Inr content' \<Rightarrow> write_file fs p content')))"

text \<open>
  The pipeline calls the methods of the object by name, and \<open>main\<close> replaces one of them
  before the run. The methods that the pipeline calls under its own control of errors
  or that \<open>main\<close> replaces are therefore arguments of the pipeline.
\<close>

record methods =
  check_m :: "implementer \<Rightarrow> files \<Rightarrow> exn + (implementer \<times> bool)"
  parse_m :: "implementer \<Rightarrow> files \<Rightarrow> exn + task list"
  execute_m :: "task list \<Rightarrow> exn + task list"
  update_m :: "implementer \<Rightarrow> task list \<Rightarrow> files \<Rightarrow> exn + files"

definition own_methods :: "env \<Rightarrow> methods" where
  "own_methods e =
     \<lparr>check_m = (\<lambda>impl fs. case check_checklists_status e impl fs of
                    Inl x \<Rightarrow> Inl x
                  | Inr (impl', rows, ok) \<Rightarrow> Inr (impl', ok)),
      parse_m = parse_tasks,
      execute_m = (\<lambda>ts. Inr (store (execute_implementation ts))),
      update_m = update_tasks_file (lib e)\<rparr>"

text \<open>
  The result of a run: \<open>Inr\<close> of what \<open>run\<close> returns, or \<open>Inl\<close> of the exception
  that leaves it; and the files after the run.
\<close>

definition run_tasks :: "methods \<Rightarrow> implementer \<Rightarrow> files \<Rightarrow> (exn + bool) \<times> files" where
  "run_tasks m impl fs =
     (case parse_m m impl fs of
        Inl x \<Rightarrow> (Inr False, fs)
      | Inr ts \<Rightarrow>
          (case execute_m m ts of
             Inl x \<Rightarrow> (Inr False, fs)
           | Inr ts' \<Rightarrow>
               (case update_m m impl ts' fs of
                  Inl x \<Rightarrow> (Inr True, fs)
                | Inr fs' \<Rightarrow> (Inr True, fs'))))"

definition run :: "methods \<Rightarrow> env \<Rightarrow> implementer \<Rightarrow> files \<Rightarrow> (exn + bool) \<times> files" where
  "run m e impl fs =
     (case run_check_prerequisites e impl fs of
        (impl1, available_docs) \<Rightarrow>
          (case check_m m impl1 fs of
             Inl x \<Rightarrow> (Inl x, fs)
           | Inr (impl2, ok) \<Rightarrow>
               if \<not> ok then (Inr False, fs)
               else (case load_implementation_context impl2 fs of
                       Inl x \<Rightarrow> (Inr False, fs)
                     | Inr impl3 \<Rightarrow>
                         (case project_setup_verification e impl3 fs of
                            (Some x, fs1) \<Rightarrow> (Inl x, fs1)
                          | (None, fs1) \<Rightarrow> run_tasks m impl3 fs1))))"

record args =
  arg_feature_dir :: "string option"
  arg_tasks_file :: "string option"
  arg_skip_checklists :: bool

definition init :: "env \<Rightarrow> string option \<Rightarrow> implementer" where
  "init e fd =
     \<lparr>feature_dir = (if truthy fd then fd else found_feature_dir e),
      feature_spec = None, impl_plan = None, tasks = None, checklists_dir = None\<rparr>"

text \<open>The exit status: 0 for success, 1 for failure and for an exception nobody caught.\<close>

fun exit_code :: "exn + bool \<Rightarrow> nat" where
  "exit_code (Inr True) = 0"
| "exit_code (Inr False) = 1"
| "exit_code (Inl x) = 1"

definition main :: "env \<Rightarrow> args \<Rightarrow> files \<Rightarrow> nat \<times> files" where
  "main e a fs =
     (let implementer0 = init e (arg_feature_dir a);
          implementer1 = (if truthy (arg_tasks_file a)
                          then implementer0\<lparr>tasks := arg_tasks_file a\<rparr> else implementer0);
          m = (if arg_skip_checklists a
               then (own_methods e)\<lparr>check_m := (\<lambda>impl fs. Inr (impl, True))\<rparr>
               else own_methods e)
      in case run m e implementer1 fs of (success, fs') \<Rightarrow> (exit_code success, fs'))"

section \<open>Notions used in the statements\<close>

text \<open>An entry of the dictionary that was counted from the file of its name.\<close>

definition from_file :: "files \<Rightarrow> path \<Rightarrow> string \<times> stats \<Rightarrow> bool" where
  "from_file fs dir x \<longleftrightarrow>
     (\<exists>content. read_file fs (join dir (fst x)) = Inr content \<and> snd x = checklist_stats content)"


text \<open>
  The maximal runs of consecutive elements with the same key, in the order of the list.
\<close>

fun runs_by :: "('a \<Rightarrow> 'k) \<Rightarrow> 'a list \<Rightarrow> 'a list list" where
  "runs_by f [] = []"
| "runs_by f (x # xs) =
     (case runs_by f xs of
        [] \<Rightarrow> [[x]]
      | r # rs \<Rightarrow> if f x = f (hd r) then (x # r) # rs else [x] # r # rs)"

text \<open>The phase and the parallel flag of the task behind a reference.\<close>

definition key :: "task list \<Rightarrow> nat \<Rightarrow> string" where
  "key ts i = phase_of (ts ! i)"

definition par :: "task list \<Rightarrow> nat \<Rightarrow> bool" where
  "par ts i = is_parallel (ts ! i)"

text \<open>What the execution of a run prints: the phase, the parallel tasks, the others.\<close>

definition render_run :: "task list \<Rightarrow> nat list \<Rightarrow> event list" where
  "render_run ts r =
     Phase_done (key ts (hd r))
     # map Task_run (filter (par ts) r @ filter (\<lambda>i. \<not> par ts i) r)"

definition render :: "task list \<Rightarrow> nat list list \<Rightarrow> event list" where
  "render ts rs = concat (map (render_run ts) rs)"

text \<open>
  The store after the tasks of \<open>S\<close> have been executed on the task list \<open>ts\<close>.
\<close>

definition upto :: "nat set \<Rightarrow> task list \<Rightarrow> exec_state \<Rightarrow> bool" where
  "upto S ts st \<longleftrightarrow>
     length (store st) = length ts
     \<and> (\<forall>j<length ts. store st ! j = (if j \<in> S then (ts ! j)\<lparr>completed := True\<rparr> else ts ! j))"


text \<open>
  An order of execution in which, within every phase, no parallel task runs after a
  sequential one.
\<close>

fun parallel_first :: "task list \<Rightarrow> nat list \<Rightarrow> bool" where
  "parallel_first ts [] = True"
| "parallel_first ts (a # rest) =
     ((is_parallel (ts ! a)
       \<or> list_all (\<lambda>b. \<not> (phase_of (ts ! b) = phase_of (ts ! a) \<and> is_parallel (ts ! b))) rest)
      \<and> parallel_first ts rest)"

text \<open>
  What a pattern may match, apart from the order in which the matcher tries things:
  \<open>matches r s g s' g'\<close> when \<open>r\<close> can take a prefix of \<open>s\<close> and leave \<open>s'\<close>, turning the
  groups \<open>g\<close> into \<open>g'\<close>.
\<close>

primrec matches :: "rx \<Rightarrow> string \<Rightarrow> groups \<Rightarrow> string \<Rightarrow> groups \<Rightarrow> bool" where
  "matches Eps s g s' g' \<longleftrightarrow> s' = s \<and> g' = g"
| "matches (Atom c) s g s' g' \<longleftrightarrow> (\<exists>x. s = x # s' \<and> in_cls c x \<and> g' = g)"
| "matches (Star c) s g s' g' \<longleftrightarrow> (\<exists>p. s = p @ s' \<and> list_all (in_cls c) p \<and> g' = g)"
| "matches (Plus c) s g s' g' \<longleftrightarrow>
     (\<exists>p. s = p @ s' \<and> p \<noteq> [] \<and> list_all (in_cls c) p \<and> g' = g)"
| "matches (Lazy_star c) s g s' g' \<longleftrightarrow> (\<exists>p. s = p @ s' \<and> list_all (in_cls c) p \<and> g' = g)"
| "matches (Times n c) s g s' g' \<longleftrightarrow>
     (\<exists>p. s = p @ s' \<and> length p = n \<and> list_all (in_cls c) p \<and> g' = g)"
| "matches (Opt r) s g s' g' \<longleftrightarrow> matches r s g s' g' \<or> (s' = s \<and> g' = g)"
| "matches (Grp n r) s g s' g' \<longleftrightarrow>
     (\<exists>g''. matches r s g s' g'' \<and> g' = g''(n \<mapsto> take (length s - length s') s))"
| "matches (Cat a b) s g s' g' \<longleftrightarrow> (\<exists>s1 g1. matches a s g s1 g1 \<and> matches b s1 g1 s' g')"

text \<open>
  The matches of a pattern in a text, scanned from left to right: no match starts before
  the first one, and the scan goes on where a match ended.
\<close>

inductive scanned :: "rx \<Rightarrow> string \<Rightarrow> groups list \<Rightarrow> bool" for r :: rx where
  none: "\<forall>k\<le>length s. match_at r (drop k s) = None \<Longrightarrow> scanned r s []"
| hit: "\<forall>k<length pre. match_at r (drop k (pre @ s)) = None
         \<Longrightarrow> match_at r s = Some (g, rest) \<Longrightarrow> scanned r rest gs
         \<Longrightarrow> scanned r (pre @ s) (g # gs)"

text \<open>
  An unchecked item with a story tag, as the pattern reads it: the dash, the brackets, the
  identifier \<open>T\<close> with the digits \<open>ds\<close>, the marker \<open>p\<close> (empty or \<open>[P]\<close>), the tag
  \<open>[USn]\<close> and the description \<open>d\<close>, with the whitespace \<open>w1\<close> to \<open>w6\<close> between them.
\<close>

definition task_item where
  "task_item w1 w2 w3 ds w4 p w5 n w6 d =
     ''-'' @ w1 @ ''['' @ w2 @ '']'' @ w3 @ CHR ''T'' # ds @ w4 @ p @ w5
     @ ''[US'' @ n @ '']'' @ w6 @ d"

text \<open>The lines of a text: the pieces between its line ends.\<close>

definition lines_of :: "string \<Rightarrow> string list" where
  "lines_of s =
     (case foldr (\<lambda>c (l, ls). if c = NL then ([], l # ls) else (c # l, ls)) s ([], []) of
        (l, ls) \<Rightarrow> l # ls)"

section \<open>Example inputs\<close>

definition env_ex :: env where
  "env_ex = \<lparr>script = Script_fails, git_repo = False, found_feature_dir = None,
     response = Some ''y'', lib = (\<lambda>t content. Inl Re_error)\<rparr>"

definition impl_ex :: implementer where
  "impl_ex = \<lparr>feature_dir = Some ''feat'', feature_spec = None, impl_plan = None,
     tasks = None, checklists_dir = None\<rparr>"

definition checklists_ex :: files where
  "checklists_ex =
     [''feat/checklists'' \<mapsto> Dir [''ux.md'', ''notes.txt'', ''api.md''],
      ''feat/checklists/ux.md'' \<mapsto>
         File (''- [x] a'' @ [NL] @ ''- [ ] b'' @ [NL] @ ''- [X] c'') True,
      ''feat/checklists/api.md'' \<mapsto> File (''- [x] a'' @ [NL]) True]"

definition rows_ex :: "row list" where
  "rows_ex =
     [\<lparr>name = ''ux.md'', counts = \<lparr>total = 3, completed_items = 2, incomplete = 1\<rparr>,
       verdict = FAIL\<rparr>,
      \<lparr>name = ''api.md'', counts = \<lparr>total = 1, completed_items = 1, incomplete = 0\<rparr>,
       verdict = PASS\<rparr>]"

definition tasks_ex :: string where
  "tasks_ex = ''- [ ] T001 [P] Setup project'' @ [NL] @ ''- [ ] T002 [US1] Implement feature'' @ [NL]"

definition feature_ex :: files where
  "feature_ex = [''feat/plan.md'' \<mapsto> File ''# Plan'' True,
                 ''feat/tasks.md'' \<mapsto> File tasks_ex True]"

definition loaded_ex :: implementer where
  "loaded_ex = \<lparr>feature_dir = Some ''feat'', feature_spec = Some ''feat/spec.md'',
     impl_plan = Some ''feat/plan.md'', tasks = Some ''feat/tasks.md'',
     checklists_dir = Some ''feat/checklists''\<rparr>"

definition read_only_ex :: files where
  "read_only_ex = feature_ex(''feat/tasks.md'' \<mapsto> File tasks_ex False)"

definition tasks_dir_ex :: files where
  "tasks_dir_ex = feature_ex(''feat/tasks.md'' \<mapsto> Dir [])"

definition failing_execute :: methods where
  "failing_execute = (own_methods env_ex)\<lparr>execute_m := (\<lambda>ts. Inl ValueError)\<rparr>"

definition override_ex :: files where
  "override_ex = feature_ex(''other.md'' \<mapsto> File ''- [ ] T009 Other task'' True)"

definition override_args :: args where
  "override_args = \<lparr>arg_feature_dir = Some ''feat'', arg_tasks_file = Some ''other.md'',
     arg_skip_checklists = False\<rparr>"

definition args_ex :: args where
  "args_ex = \<lparr>arg_feature_dir = Some ''feat'', arg_tasks_file = None,
     arg_skip_checklists = False\<rparr>"

definition interleaved_ex :: string where
  "interleaved_ex = ''- [ ] T001 Setup tools'' @ [NL] @ ''- [ ] T002 [US1] Build model'' @ [NL]
     @ ''- [ ] T003 [P] Setup docs'' @ [NL]"

definition star_ex :: string where
  "star_ex = ''- [ ] T001 Support *.md files'' @ [NL]"

definition us1_ex :: string where
  "us1_ex = ''- [ ] T002 [US1] Setup the database''"

definition split_ex :: string where
  "split_ex = ''- [ ]'' @ [NL] @ ''T001 do it''"

definition prefix_ex :: string where
  "prefix_ex = ''  * TODO ''"

definition item_ex :: string where
  "item_ex = ''- [ ] T007 Write tests''"

definition nested_ex :: string where
  "nested_ex = ''- [ ] T001'' @ [NL] @ ''  - [ ] T002 Write tests''"

definition same_line_ex :: string where
  "same_line_ex = ''- [ ] T001 a - [ ] T002 b''"

section \<open>The checklist validator: counts and verdicts\<close>

lemma count_items_sum:
  "count_items gs (c, i) = (c', i') \<Longrightarrow> c' + i' = c + i + length gs"
  by (induction gs arbitrary: c i) (auto split: if_splits)

lemma checklist_stats_sum:
  "total (checklist_stats content) =
     completed_items (checklist_stats content) + incomplete (checklist_stats content)"
  by (auto simp: checklist_stats_def Let_def split: prod.splits dest: count_items_sum)

lemma dict_set_pred:
  "\<forall>x\<in>set d. P x \<Longrightarrow> P (k, v) \<Longrightarrow> \<forall>x\<in>set (dict_set d k v). P x"
  by (induction d k v rule: dict_set.induct) auto

lemma scan_checklists_from_file:
  "scan_checklists fs dir ns d = Inr d' \<Longrightarrow> \<forall>x\<in>set d. from_file fs dir x
     \<Longrightarrow> \<forall>x\<in>set d'. from_file fs dir x"
proof (induction ns arbitrary: d)
  case Nil
  then show ?case by simp
next
  case (Cons n ns)
  from Cons.prems(1) obtain content where rd: "read_file fs (join dir n) = Inr content"
    and sc: "scan_checklists fs dir ns (dict_set d n (checklist_stats content)) = Inr d'"
    by (auto split: sum.splits)
  have "from_file fs dir (n, checklist_stats content)"
    using rd by (auto simp: from_file_def)
  with Cons.prems(2) have "\<forall>x\<in>set (dict_set d n (checklist_stats content)). from_file fs dir x"
    by (rule dict_set_pred)
  with sc show ?case by (rule Cons.IH)
qed

text \<open>Every row of the table was counted from the checklist file of its name.\<close>

lemma rows_from_files:
  assumes "check_checklists_status e impl fs = Inr (impl', rows, ok)" and "r \<in> set rows"
  shows "\<exists>fd content. feature_dir impl = Some fd
           \<and> read_file fs (join (join fd ''checklists'') (name r)) = Inr content
           \<and> counts r = checklist_stats content \<and> verdict r = status_of (counts r)"
proof -
  from assms obtain fd entries d where fd: "feature_dir impl = Some fd"
    and sc: "scan_checklists fs (join fd ''checklists'') (filter is_md entries) [] = Inr d"
    and rows: "rows = table d"
    by (auto simp: check_checklists_status_def Let_def
             split: option.splits if_splits node.splits sum.splits)
  from sc have "\<forall>x\<in>set d. from_file fs (join fd ''checklists'') x"
    by (rule scan_checklists_from_file) simp
  moreover from assms(2) rows obtain n st where "(n, st) \<in> set d"
    and "r = \<lparr>name = n, counts = st, verdict = status_of st\<rparr>"
    by (auto simp: table_def)
  ultimately show ?thesis using fd by (fastforce simp: from_file_def)
qed

lemma checklist_ex_rows:
  "check_checklists_status env_ex impl_ex checklists_ex =
     Inr (impl_ex\<lparr>checklists_dir := Some ''feat/checklists''\<rparr>, rows_ex, True)"
  by code_simp

text \<open>
  C7. In the table of a checklist scan, the counters of every file satisfy
  total = completed + incomplete, whatever the files contain.
\<close>

theorem checklist_counts_add_up:
  assumes "check_checklists_status e impl fs = Inr (impl', rows, ok)"
  shows "\<forall>r\<in>set rows. total (counts r) = completed_items (counts r) + incomplete (counts r)"
proof
  fix r assume "r \<in> set rows"
  with assms obtain content where "counts r = checklist_stats content"
    using rows_from_files by blast
  then show "total (counts r) = completed_items (counts r) + incomplete (counts r)"
    by (simp add: checklist_stats_sum)
qed

theorem checklist_counts_add_up_witness:
  "check_checklists_status env_ex impl_ex checklists_ex =
     Inr (impl_ex\<lparr>checklists_dir := Some ''feat/checklists''\<rparr>, rows_ex, True)
   \<and> list_all (\<lambda>r. total (counts r) = completed_items (counts r) + incomplete (counts r))
         rows_ex"
  using checklist_ex_rows checklist_counts_add_up [OF checklist_ex_rows]
  by (simp add: list_all_iff)











section \<open>The pipeline: errors of the stages\<close>

lemma main_exit:
  "fst (main e a fs) =
     exit_code (fst (run (if arg_skip_checklists a
                          then (own_methods e)\<lparr>check_m := (\<lambda>impl fs. Inr (impl, True))\<rparr>
                          else own_methods e) e
                         (if truthy (arg_tasks_file a)
                          then (init e (arg_feature_dir a))\<lparr>tasks := arg_tasks_file a\<rparr>
                          else init e (arg_feature_dir a)) fs))"
  by (simp add: main_def Let_def split: prod.splits)

lemma raised_eq: "isl s \<Longrightarrow> projl s = x \<Longrightarrow> s = Inl x"
  by (cases s) auto

lemma setup_split:
  "fst (project_setup_verification e impl fs) = None \<Longrightarrow>
   project_setup_verification e impl fs = (None, snd (project_setup_verification e impl fs))"
  by (metis prod.collapse)

text \<open>
  C9. Once the stages before it have passed: an error raised by the update of the tasks
  file is swallowed, the run returns success and the exit status is 0; an error raised by
  the parse stage or by the execution stage makes the run return failure, exit status 1.
\<close>

theorem stage_errors:
  assumes "run_check_prerequisites e impl fs = (impl1, docs)"
    and "check_m m impl1 fs = Inr (impl2, True)"
    and "load_implementation_context impl2 fs = Inr impl3"
    and "project_setup_verification e impl3 fs = (None, fs1)"
  shows "(\<forall>ts ts' x. parse_m m impl3 fs1 = Inr ts \<and> execute_m m ts = Inr ts'
              \<and> update_m m impl3 ts' fs1 = Inl x
            \<longrightarrow> run m e impl fs = (Inr True, fs1) \<and> exit_code (fst (run m e impl fs)) = 0)
       \<and> (\<forall>x. parse_m m impl3 fs1 = Inl x
            \<longrightarrow> run m e impl fs = (Inr False, fs1) \<and> exit_code (fst (run m e impl fs)) = 1)
       \<and> (\<forall>ts x. parse_m m impl3 fs1 = Inr ts \<and> execute_m m ts = Inl x
            \<longrightarrow> run m e impl fs = (Inr False, fs1) \<and> exit_code (fst (run m e impl fs)) = 1)"
  using assms by (simp add: run_def run_tasks_def)

theorem stage_errors_witness:
  "exit_code (fst (run (own_methods env_ex) env_ex impl_ex read_only_ex)) = 0
   \<and> update_m (own_methods env_ex) loaded_ex
        (store (execute_implementation (parse_content tasks_ex)))
        (snd (project_setup_verification env_ex loaded_ex read_only_ex)) = Inl PermissionError
   \<and> exit_code (fst (run (own_methods env_ex) env_ex impl_ex tasks_dir_ex)) = 1
   \<and> parse_m (own_methods env_ex) loaded_ex
        (snd (project_setup_verification env_ex loaded_ex tasks_dir_ex)) = Inl IsADirectoryError
   \<and> exit_code (fst (run failing_execute env_ex impl_ex feature_ex)) = 1
   \<and> execute_m failing_execute (parse_content tasks_ex) = Inl ValueError"
proof -
  have a1: "run_check_prerequisites env_ex impl_ex read_only_ex = (impl_ex, [])"
    by code_simp
  have a2: "check_m (own_methods env_ex) impl_ex read_only_ex
              = Inr (impl_ex\<lparr>checklists_dir := Some ''feat/checklists''\<rparr>, True)"
    by code_simp
  have a3: "load_implementation_context (impl_ex\<lparr>checklists_dir := Some ''feat/checklists''\<rparr>)
              read_only_ex = Inr loaded_ex"
    by code_simp
  have "fst (project_setup_verification env_ex loaded_ex read_only_ex) = None"
    by code_simp
  then have a4: "project_setup_verification env_ex loaded_ex read_only_ex
              = (None, snd (project_setup_verification env_ex loaded_ex read_only_ex))"
    by (rule setup_split)
  have p: "parse_m (own_methods env_ex) loaded_ex
             (snd (project_setup_verification env_ex loaded_ex read_only_ex))
           = Inr (parse_content tasks_ex)"
    by code_simp
  have x: "execute_m (own_methods env_ex) (parse_content tasks_ex)
           = Inr (store (execute_implementation (parse_content tasks_ex)))"
    by code_simp
  have "isl (update_m (own_methods env_ex) loaded_ex
        (store (execute_implementation (parse_content tasks_ex)))
        (snd (project_setup_verification env_ex loaded_ex read_only_ex)))"
    and "projl (update_m (own_methods env_ex) loaded_ex
        (store (execute_implementation (parse_content tasks_ex)))
        (snd (project_setup_verification env_ex loaded_ex read_only_ex))) = PermissionError"
    by code_simp+
  then have u: "update_m (own_methods env_ex) loaded_ex
        (store (execute_implementation (parse_content tasks_ex)))
        (snd (project_setup_verification env_ex loaded_ex read_only_ex)) = Inl PermissionError"
    by (rule raised_eq)
  have b1: "run_check_prerequisites env_ex impl_ex tasks_dir_ex = (impl_ex, [])"
    by code_simp
  have b2: "check_m (own_methods env_ex) impl_ex tasks_dir_ex
              = Inr (impl_ex\<lparr>checklists_dir := Some ''feat/checklists''\<rparr>, True)"
    by code_simp
  have b3: "load_implementation_context (impl_ex\<lparr>checklists_dir := Some ''feat/checklists''\<rparr>)
              tasks_dir_ex = Inr loaded_ex"
    by code_simp
  have "fst (project_setup_verification env_ex loaded_ex tasks_dir_ex) = None"
    by code_simp
  then have b4: "project_setup_verification env_ex loaded_ex tasks_dir_ex
              = (None, snd (project_setup_verification env_ex loaded_ex tasks_dir_ex))"
    by (rule setup_split)
  have q: "parse_m (own_methods env_ex) loaded_ex
        (snd (project_setup_verification env_ex loaded_ex tasks_dir_ex)) = Inl IsADirectoryError"
    by code_simp
  have c1: "run_check_prerequisites env_ex impl_ex feature_ex = (impl_ex, [])"
    by code_simp
  have c2: "check_m failing_execute impl_ex feature_ex
              = Inr (impl_ex\<lparr>checklists_dir := Some ''feat/checklists''\<rparr>, True)"
    by code_simp
  have c3: "load_implementation_context (impl_ex\<lparr>checklists_dir := Some ''feat/checklists''\<rparr>)
              feature_ex = Inr loaded_ex"
    by code_simp
  have "fst (project_setup_verification env_ex loaded_ex feature_ex) = None"
    by code_simp
  then have c4: "project_setup_verification env_ex loaded_ex feature_ex
              = (None, snd (project_setup_verification env_ex loaded_ex feature_ex))"
    by (rule setup_split)
  have r: "parse_m failing_execute loaded_ex
             (snd (project_setup_verification env_ex loaded_ex feature_ex))
           = Inr (parse_content tasks_ex)"
    by code_simp
  have y: "execute_m failing_execute (parse_content tasks_ex) = Inl ValueError"
    by code_simp
  from stage_errors [OF a1 a2 a3 a4] p x u
  have "exit_code (fst (run (own_methods env_ex) env_ex impl_ex read_only_ex)) = 0"
    by blast
  moreover from stage_errors [OF b1 b2 b3 b4] q
  have "exit_code (fst (run (own_methods env_ex) env_ex impl_ex tasks_dir_ex)) = 1"
    by blast
  moreover from stage_errors [OF c1 c2 c3 c4] r y
  have "exit_code (fst (run failing_execute env_ex impl_ex feature_ex)) = 1"
    by blast
  ultimately show ?thesis using u q y by blast
qed

section \<open>The pipeline: which tasks file it works on\<close>

text \<open>Loading the context sets the tasks file to the one of the feature directory.\<close>

lemma load_sets_tasks:
  "load_implementation_context impl fs = Inr impl'
     \<Longrightarrow> \<exists>fd. feature_dir impl = Some fd \<and> tasks impl' = Some (join fd ''tasks.md'')"
  by (auto simp: load_implementation_context_def Let_def split: option.splits if_splits)

text \<open>
  C6. The claim is that with a tasks file given on the command line the pipeline parses
  and rewrites that file and not the \<open>tasks.md\<close> of the feature directory. Here the
  program runs with \<open>--feature-dir feat --tasks-file other.md\<close>: it exits with 0, the
  file \<open>other.md\<close> is as it was, with its task unchecked, and \<open>feat/tasks.md\<close> is the file
  that was parsed and rewritten.
\<close>

theorem tasks_file_override_is_overwritten:
  "(case main env_ex override_args override_ex of
      (code, fs') \<Rightarrow>
        code = 0
        \<and> fs' ''other.md'' = Some (File ''- [ ] T009 Other task'' True)
        \<and> fs' ''feat/tasks.md'' =
            Some (File (''- [X] T001 [P] Setup project'' @ [NL]
                        @ ''- [X] T002 [1] Implement feature'' @ [NL]) True))"
  by code_simp

section \<open>The end-to-end scenario\<close>

text \<open>
  C1, as stated, fails on the file with the two lines \<open>- [ ] T001 [P] Setup project\<close> and
  \<open>- [ ] T002 [US1] Implement feature\<close>: the records parsed are not the ones claimed (the
  story of T002 is not \<open>US1\<close>), and the file after the run does not contain
  \<open>- [X] T002 [US1] Implement feature\<close>.
\<close>

theorem scenario_counterexample:
  "\<not> (map (\<lambda>t. (ident t, is_parallel t, story t)) (parse_content tasks_ex)
         = [(''T001'', True, None), (''T002'', False, Some ''US1'')])
   \<and> \<not> contains ''- [X] T002 [US1] Implement feature''
         (case snd (main env_ex args_ex feature_ex) ''feat/tasks.md'' of
            Some (File content w) \<Rightarrow> content | _ \<Rightarrow> [])"
  by code_simp

text \<open>
  C1, amended. For that file, parsing yields exactly two records: T001 with parallel true
  and no story, T002 with parallel false and the story \<open>1\<close> (the digits of its tag); the
  run succeeds, and after it the file contains the line \<open>- [X] T001 [P] Setup project\<close>.
\<close>

theorem scenario_as_run:
  "parse_content tasks_ex =
     [\<lparr>ident = ''T001'', description = ''Setup project'', is_parallel = True,
       story = None, completed = False\<rparr>,
      \<lparr>ident = ''T002'', description = ''Implement feature'', is_parallel = False,
       story = Some ''1'', completed = False\<rparr>]
   \<and> fst (main env_ex args_ex feature_ex) = 0
   \<and> (case snd (main env_ex args_ex feature_ex) ''feat/tasks.md'' of
         Some (File content w) \<Rightarrow> ''- [X] T001 [P] Setup project'' \<in> set (lines_of content)
       | _ \<Rightarrow> False)"
  by code_simp

section \<open>The simulated execution\<close>

text \<open>The runs are a partition of the list into blocks of one key, neighbours differing.\<close>

lemma runs_by_concat: "concat (runs_by f xs) = xs"
  by (induction xs) (auto split: list.splits)

lemma runs_by_const: "r \<in> set (runs_by f xs) \<Longrightarrow> x \<in> set r \<Longrightarrow> f x = f (hd r)"
  by (induction xs arbitrary: r) (auto split: list.splits if_splits)

lemma runs_by_adjacent:
  "successively (\<lambda>r r'. f (hd r) \<noteq> f (hd r')) (runs_by f xs)"
proof (induction xs)
  case Nil
  then show ?case by simp
next
  case (Cons x xs)
  show ?case
  proof (cases "runs_by f xs")
    case Nil
    then show ?thesis by simp
  next
    case (Cons r rs)
    with Cons.IH show ?thesis
      by (cases rs) auto
  qed
qed

lemma phase_of_completed [simp]: "phase_of (t\<lparr>completed := b\<rparr>) = phase_of t"
  by (simp add: phase_of_def has_story_def)

lemma upto_key: "upto S ts st \<Longrightarrow> i < length ts \<Longrightarrow> phase_of (store st ! i) = key ts i"
  by (simp add: upto_def key_def)

lemma upto_par: "upto S ts st \<Longrightarrow> i < length ts \<Longrightarrow> is_parallel (store st ! i) = par ts i"
  by (simp add: upto_def par_def)

lemma runs_by_nonempty: "[] \<notin> set (runs_by f xs)"
  by (induction xs) (auto split: list.splits)

lemma runs_by_single:
  "pt \<noteq> [] \<Longrightarrow> \<forall>x\<in>set pt. f x = c \<Longrightarrow> runs_by f pt = [pt]"
proof (induction pt)
  case Nil
  then show ?case by simp
next
  case (Cons x pt)
  then show ?case by (cases pt) auto
qed

lemma runs_by_Cons: "runs_by f (x # xs) \<noteq> []"
  by (auto split: list.splits)

lemma runs_by_hd: "runs_by f (x # xs) = r # rs \<Longrightarrow> hd r = x"
  by (auto split: list.splits if_splits)

lemma runs_by_split:
  "pt \<noteq> [] \<Longrightarrow> \<forall>x\<in>set pt. f x = c \<Longrightarrow> f i \<noteq> c
     \<Longrightarrow> runs_by f (pt @ i # is) = pt # runs_by f (i # is)"
proof (induction pt)
  case Nil
  then show ?case by simp
next
  case (Cons x pt)
  show ?case
  proof (cases pt)
    case Nil
    have "runs_by f (i # is) \<noteq> []" by (rule runs_by_Cons)
    then obtain r rs where r: "runs_by f (i # is) = r # rs"
      by (auto simp: neq_Nil_conv)
    then have "hd r = i" by (rule runs_by_hd)
    with Nil r Cons.prems show ?thesis by auto
  next
    case (Cons y ys)
    with Cons.IH Cons.prems have "runs_by f (pt @ i # is) = pt # runs_by f (i # is)"
      by auto
    with Cons Cons.prems show ?thesis by auto
  qed
qed

lemma execute_single_task_upto:
  "upto S ts st \<Longrightarrow> i < length ts \<Longrightarrow> upto (insert i S) ts (execute_single_task i st)"
  by (auto simp: upto_def execute_single_task_def nth_list_update)

lemma execute_single_task_trace:
  "trace (execute_single_task i st) = trace st @ [Task_run i]"
  by (simp add: execute_single_task_def)

lemma fold_execute:
  "upto S ts st \<Longrightarrow> set is \<subseteq> {..<length ts}
     \<Longrightarrow> upto (S \<union> set is) ts (fold execute_single_task is st)
         \<and> trace (fold execute_single_task is st) = trace st @ map Task_run is"
proof (induction "is" arbitrary: S st)
  case Nil
  then show ?case by simp
next
  case (Cons i "is")
  from Cons.prems have "upto (insert i S) ts (execute_single_task i st)"
    by (auto intro: execute_single_task_upto)
  from Cons.IH [OF this] Cons.prems(2) show ?case
    by (simp add: execute_single_task_trace)
qed

lemma execute_phase_tasks_upto:
  assumes "upto S ts st" and "set pt \<subseteq> {..<length ts}"
  shows "upto (S \<union> set pt) ts (execute_phase_tasks pt st)"
    and "trace (execute_phase_tasks pt st)
           = trace st @ map Task_run (filter (par ts) pt @ filter (\<lambda>i. \<not> par ts i) pt)"
proof -
  have p: "filter (\<lambda>i. is_parallel (store st ! i)) pt = filter (par ts) pt"
    using assms by (intro filter_cong) (auto simp: upto_par)
  have q: "filter (\<lambda>i. \<not> is_parallel (store st ! i)) pt = filter (\<lambda>i. \<not> par ts i) pt"
    using assms by (intro filter_cong) (auto simp: upto_par)
  let ?a = "fold execute_single_task (filter (par ts) pt) st"
  have a: "upto (S \<union> set (filter (par ts) pt)) ts ?a"
      "trace ?a = trace st @ map Task_run (filter (par ts) pt)"
    using fold_execute [OF assms(1), of "filter (par ts) pt"] assms(2) by auto
  have b: "upto (S \<union> set (filter (par ts) pt) \<union> set (filter (\<lambda>i. \<not> par ts i) pt)) ts
             (fold execute_single_task (filter (\<lambda>i. \<not> par ts i) pt) ?a)"
      "trace (fold execute_single_task (filter (\<lambda>i. \<not> par ts i) pt) ?a)
         = trace ?a @ map Task_run (filter (\<lambda>i. \<not> par ts i) pt)"
    using fold_execute [OF a(1), of "filter (\<lambda>i. \<not> par ts i) pt"] assms(2) by auto
  have s: "S \<union> set (filter (par ts) pt) \<union> set (filter (\<lambda>i. \<not> par ts i) pt) = S \<union> set pt"
    by auto
  from b(1) have "upto (S \<union> set pt) ts
             (fold execute_single_task (filter (\<lambda>i. \<not> par ts i) pt) ?a)"
    by (simp only: s)
  then show "upto (S \<union> set pt) ts (execute_phase_tasks pt st)"
    by (simp add: execute_phase_tasks_def Let_def p q)
  show "trace (execute_phase_tasks pt st)
           = trace st @ map Task_run (filter (par ts) pt @ filter (\<lambda>i. \<not> par ts i) pt)"
    using a(2) b(2) by (simp add: execute_phase_tasks_def Let_def p q)
qed

lemma finish_phase_upto:
  assumes "upto S ts st" and "set pt \<subseteq> {..<length ts}" and "\<forall>x\<in>set pt. key ts x = cur"
  shows "upto (S \<union> set pt) ts (finish_phase cur pt st)"
    and "trace (finish_phase cur pt st) = trace st @ render ts (runs_by (key ts) pt)"
proof -
  let ?st = "st\<lparr>trace := trace st @ [Phase_done cur]\<rparr>"
  have u: "upto S ts ?st" using assms(1) by (simp add: upto_def)
  show "upto (S \<union> set pt) ts (finish_phase cur pt st)"
    using execute_phase_tasks_upto(1) [OF u assms(2)] assms(1)
    by (simp add: finish_phase_def)
  show "trace (finish_phase cur pt st) = trace st @ render ts (runs_by (key ts) pt)"
  proof (cases "pt = []")
    case True
    then show ?thesis by (simp add: finish_phase_def render_def)
  next
    case False
    then have "runs_by (key ts) pt = [pt]" using assms(3) by (rule runs_by_single)
    moreover have "key ts (hd pt) = cur" using False assms(3) by (cases pt) auto
    ultimately show ?thesis
      using False execute_phase_tasks_upto(2) [OF u assms(2)]
      by (simp add: finish_phase_def render_def render_run_def)
  qed
qed

lemma group_loop_upto:
  assumes "upto S ts st" and "set is \<subseteq> {..<length ts}" and "set pt \<subseteq> {..<length ts}"
    and "\<forall>x\<in>set pt. key ts x = cur"
    and "group_loop is cur pt st = (cur', pt', st')"
  shows "upto (S \<union> set pt \<union> set is) ts (finish_phase cur' pt' st')
         \<and> trace (finish_phase cur' pt' st') = trace st @ render ts (runs_by (key ts) (pt @ is))"
  using assms
proof (induction "is" arbitrary: S st cur pt)
  case Nil
  then show ?case using finish_phase_upto [of S ts st pt cur] by auto
next
  case (Cons i "is")
  from Cons.prems have i: "i < length ts" by simp
  have ph: "phase_of (store st ! i) = key ts i" using Cons.prems(1) i by (rule upto_key)
  show ?case
  proof (cases "key ts i = cur")
    case True
    with Cons.prems ph have g: "group_loop is cur (pt @ [i]) st = (cur', pt', st')"
      by (simp add: Let_def)
    have "upto (S \<union> set (pt @ [i]) \<union> set is) ts (finish_phase cur' pt' st')
         \<and> trace (finish_phase cur' pt' st') = trace st @ render ts (runs_by (key ts) ((pt @ [i]) @ is))"
      using Cons.prems True by (intro Cons.IH [OF _ _ _ _ g]) auto
    then show ?thesis by (simp add: Un_ac)
  next
    case False
    let ?st1 = "finish_phase cur pt st"
    from Cons.prems ph False have g: "group_loop is (key ts i) [i] ?st1 = (cur', pt', st')"
      by (simp add: Let_def)
    have u1: "upto (S \<union> set pt) ts ?st1"
      and t1: "trace ?st1 = trace st @ render ts (runs_by (key ts) pt)"
      using finish_phase_upto [OF Cons.prems(1) Cons.prems(3) Cons.prems(4)] by auto
    have "upto (S \<union> set pt \<union> set [i] \<union> set is) ts (finish_phase cur' pt' st')
         \<and> trace (finish_phase cur' pt' st') = trace ?st1 @ render ts (runs_by (key ts) ([i] @ is))"
      using Cons.prems i by (intro Cons.IH [OF u1 _ _ _ g]) auto
    moreover have "render ts (runs_by (key ts) pt) @ render ts (runs_by (key ts) (i # is))
                     = render ts (runs_by (key ts) (pt @ i # is))"
    proof (cases "pt = []")
      case True
      then show ?thesis by (simp add: render_def)
    next
      case False2: False
      then have "runs_by (key ts) pt = [pt]" using Cons.prems(4) by (rule runs_by_single)
      moreover have "runs_by (key ts) (pt @ i # is) = pt # runs_by (key ts) (i # is)"
        using False2 Cons.prems(4) False by (rule runs_by_split)
      ultimately show ?thesis by (simp add: render_def)
    qed
    ultimately show ?thesis using t1 by (simp add: Un_ac)
  qed
qed

lemma execute_implementation_result:
  "trace (execute_implementation ts) = render ts (runs_by (key ts) [0..<length ts])"
  "store (execute_implementation ts) = map (\<lambda>t. t\<lparr>completed := True\<rparr>) ts"
proof -
  let ?st = "\<lparr>store = ts, trace = []\<rparr>"
  obtain cur' pt' st' where g: "group_loop [0..<length ts] ''unknown'' [] ?st = (cur', pt', st')"
    by (cases "group_loop [0..<length ts] ''unknown'' [] ?st") auto
  have u: "upto {} ts ?st" by (simp add: upto_def)
  have r: "upto ({} \<union> set [] \<union> set [0..<length ts]) ts (finish_phase cur' pt' st')
         \<and> trace (finish_phase cur' pt' st') = trace ?st @ render ts (runs_by (key ts) ([] @ [0..<length ts]))"
    by (rule group_loop_upto [OF u _ _ _ g]) auto
  have e: "execute_implementation ts = finish_phase cur' pt' st'"
    using g by (simp add: execute_implementation_def)
  show "trace (execute_implementation ts) = render ts (runs_by (key ts) [0..<length ts])"
    using r e by simp
  from r e have "upto {..<length ts} ts (execute_implementation ts)"
    by (simp add: atLeast0LessThan lessThan_def)
  then show "store (execute_implementation ts) = map (\<lambda>t. t\<lparr>completed := True\<rparr>) ts"
    by (intro nth_equalityI) (auto simp: upto_def)
qed


lemma all_completed_after_execution:
  "list_all completed (store (execute_implementation ts))"
  by (simp add: execute_implementation_result(2) list_all_iff)

text \<open>
  C5, as stated, fails on a file whose phases are interleaved: T001 (setup, sequential),
  T002 (story 1), T003 (setup, parallel). The setup phase is processed twice, and the
  sequential T001 runs before the parallel T003 of the same phase.
\<close>

theorem phases_counterexample:
  "execution_order (parse_content interleaved_ex) = [0, 1, 2]
   \<and> trace (execute_implementation (parse_content interleaved_ex))
       = [Phase_done ''setup'', Task_run 0, Phase_done ''1'', Task_run 1,
          Phase_done ''setup'', Task_run 2]
   \<and> phase_of (parse_content interleaved_ex ! 0) = phase_of (parse_content interleaved_ex ! 2)
   \<and> \<not> is_parallel (parse_content interleaved_ex ! 0)
   \<and> is_parallel (parse_content interleaved_ex ! 2)
   \<and> \<not> parallel_first (parse_content interleaved_ex)
         (execution_order (parse_content interleaved_ex))"
  by code_simp

text \<open>
  C5, amended. The task list is cut into the maximal runs of consecutive tasks with the
  same phase. The runs are processed in file order, so a phase whose tasks are not
  consecutive is processed once for each of its runs; within a run all parallel tasks
  are executed before all sequential ones, each kind in file order.
\<close>

theorem phases_are_runs:
  "trace (execute_implementation ts) = render ts (runs_by (key ts) [0..<length ts])
   \<and> execution_order ts
       = concat (map (\<lambda>r. filter (par ts) r @ filter (\<lambda>i. \<not> par ts i) r)
                     (runs_by (key ts) [0..<length ts]))"
proof -
  have "runs_of (render ts rs)
          = concat (map (\<lambda>r. filter (par ts) r @ filter (\<lambda>i. \<not> par ts i) r) rs)" for rs
  proof (induction rs)
    case Nil
    then show ?case by (simp add: render_def)
  next
    case (Cons r rs)
    have "runs_of (map Task_run xs @ es) = xs @ runs_of es" for xs es
      by (induction xs) auto
    with Cons show ?case by (simp add: render_def render_run_def)
  qed
  then show ?thesis
    by (simp add: execution_order_def execute_implementation_result(1))
qed

section \<open>The rewrite and the characters of the pattern language\<close>

text \<open>
  C4. The claim is that after the execution every task is completed and that the rewrite
  checks every unchecked line whose identifier and description are still those that
  were parsed. Here the tasks file holds the line \<open>- [ ] T001 Support *.md files\<close>. The
  task is parsed with that description and is completed by the execution, the run
  succeeds, and the file after the run is the file before it: the line is still
  unchecked, because the description is read as a pattern and does not match itself.
\<close>

theorem rewrite_misses_pattern_characters:
  "parse_content star_ex =
     [\<lparr>ident = ''T001'', description = ''Support *.md files'', is_parallel = False,
       story = None, completed = False\<rparr>]
   \<and> list_all completed (store (execute_implementation (parse_content star_ex)))
   \<and> fst (main env_ex args_ex (feature_ex(''feat/tasks.md'' \<mapsto> File star_ex True))) = 0
   \<and> snd (main env_ex args_ex (feature_ex(''feat/tasks.md'' \<mapsto> File star_ex True)))
         ''feat/tasks.md'' = Some (File star_ex True)"
  by code_simp

section \<open>The matcher against the patterns\<close>

text \<open>Whatever the matcher returns is a match in the sense of \<open>matches\<close>.\<close>

lemma star_max_sound:
  "star_max p s k = Some x \<Longrightarrow> \<exists>pre s'. s = pre @ s' \<and> list_all p pre \<and> k s' = Some x"
proof (induction s)
  case Nil
  then show ?case by simp
next
  case (Cons c s)
  show ?case
  proof (cases "p c \<and> star_max p s k \<noteq> None")
    case True
    with Cons.prems have "star_max p s k = Some x" by auto
    from Cons.IH [OF this] obtain pre s' where "s = pre @ s'" "list_all p pre" "k s' = Some x"
      by blast
    with True have "c # s = (c # pre) @ s' \<and> list_all p (c # pre) \<and> k s' = Some x" by simp
    then show ?thesis by blast
  next
    case False
    with Cons.prems have "k (c # s) = Some x" by (auto split: if_splits option.splits)
    then have "c # s = [] @ (c # s) \<and> list_all p [] \<and> k (c # s) = Some x" by simp
    then show ?thesis by blast
  qed
qed

lemma star_min_sound:
  "star_min p s k = Some x \<Longrightarrow> \<exists>pre s'. s = pre @ s' \<and> list_all p pre \<and> k s' = Some x"
proof (induction s)
  case Nil
  then show ?case by simp
next
  case (Cons c s)
  show ?case
  proof (cases "k (c # s)")
    case None
    with Cons.prems have pc: "p c" and "star_min p s k = Some x" by (auto split: if_splits)
    from Cons.IH [OF this(2)] obtain pre s' where "s = pre @ s'" "list_all p pre" "k s' = Some x"
      by blast
    with pc have "c # s = (c # pre) @ s' \<and> list_all p (c # pre) \<and> k s' = Some x" by simp
    then show ?thesis by blast
  next
    case (Some y)
    with Cons.prems have "k (c # s) = Some x" by simp
    then have "c # s = [] @ (c # s) \<and> list_all p [] \<and> k (c # s) = Some x" by simp
    then show ?thesis by blast
  qed
qed

lemma times_sound:
  "times n p s k = Some x
     \<Longrightarrow> \<exists>pre s'. s = pre @ s' \<and> length pre = n \<and> list_all p pre \<and> k s' = Some x"
proof (induction n arbitrary: s)
  case 0
  then show ?case by simp
next
  case (Suc n)
  from Suc.prems obtain c cs where s: "s = c # cs" and pc: "p c"
    and "times n p cs k = Some x"
    by (auto split: list.splits if_splits)
  from Suc.IH [OF this(3)] obtain pre s' where
    "cs = pre @ s'" "length pre = n" "list_all p pre" "k s' = Some x" by blast
  with s pc have "s = (c # pre) @ s' \<and> length (c # pre) = Suc n \<and> list_all p (c # pre) \<and> k s' = Some x"
    by simp
  then show ?case by blast
qed

lemma rmatch_sound:
  "rmatch r s g k = Some x \<Longrightarrow> \<exists>s' g'. matches r s g s' g' \<and> k s' g' = Some x"
proof (induction r arbitrary: s g k)
  case Eps
  then show ?case by simp
next
  case (Atom c)
  then show ?case by (auto split: list.splits if_splits)
next
  case (Star c)
  then show ?case using star_max_sound [of "in_cls c" s "\<lambda>s'. k s' g" x] by auto
next
  case (Plus c)
  from Plus obtain a cs where s: "s = a # cs" and a: "in_cls c a"
    and "star_max (in_cls c) cs (\<lambda>s'. k s' g) = Some x"
    by (auto split: list.splits if_splits)
  from star_max_sound [OF this(3)] obtain pre s' where
    "cs = pre @ s'" "list_all (in_cls c) pre" "k s' g = Some x" by blast
  with s a have "s = (a # pre) @ s' \<and> a # pre \<noteq> [] \<and> list_all (in_cls c) (a # pre) \<and> k s' g = Some x"
    by simp
  then show ?case by (metis matches.simps(4))
next
  case (Lazy_star c)
  then show ?case using star_min_sound [of "in_cls c" s "\<lambda>s'. k s' g" x] by auto
next
  case (Times n c)
  then show ?case using times_sound [of n "in_cls c" s "\<lambda>s'. k s' g" x] by auto
next
  case (Opt r)
  show ?case
  proof (cases "rmatch r s g k")
    case None
    with Opt.prems show ?thesis by auto
  next
    case (Some y)
    with Opt.prems have "rmatch r s g k = Some x" by simp
    from Opt.IH [OF this] show ?thesis by auto
  qed
next
  case (Grp n r)
  from Grp.prems have "rmatch r s g (\<lambda>s' g'. k s' (g'(n \<mapsto> take (length s - length s') s))) = Some x"
    by simp
  from Grp.IH [OF this] obtain s' g'' where m: "matches r s g s' g''"
    and k: "k s' (g''(n \<mapsto> take (length s - length s') s)) = Some x"
    by blast
  from m have "matches (Grp n r) s g s' (g''(n \<mapsto> take (length s - length s') s))"
    by (simp only: matches.simps) blast
  with k show ?case by blast
next
  case (Cat a b)
  from Cat.prems have "rmatch a s g (\<lambda>s' g'. rmatch b s' g' k) = Some x" by simp
  from Cat.IH(1) [OF this] obtain s1 g1 where "matches a s g s1 g1" "rmatch b s1 g1 k = Some x"
    by blast
  moreover from Cat.IH(2) [OF this(2)] obtain s' g' where "matches b s1 g1 s' g'" "k s' g' = Some x"
    by blast
  ultimately show ?case by auto
qed

lemma match_at_sound:
  "match_at r s = Some (g, rest) \<Longrightarrow> matches r s Map.empty rest g"
  using rmatch_sound [of r s Map.empty "\<lambda>s' g. Some (g, s')" "(g, rest)"]
  by (auto simp: match_at_def)

lemma matches_suffix: "matches r s g s' g' \<Longrightarrow> \<exists>w. s = w @ s'"
proof (induction r arbitrary: s g s' g')
  case (Atom c)
  then have "s = [hd s] @ s'" by auto
  then show ?case by blast
next
  case (Cat a b)
  then obtain s1 g1 where "matches a s g s1 g1" "matches b s1 g1 s' g'" by auto
  with Cat.IH obtain w1 w2 where "s = w1 @ s1" "s1 = w2 @ s'" by blast
  then have "s = (w1 @ w2) @ s'" by simp
  then show ?case by blast
qed auto

lemma matches_Grp:
  "matches (Grp n r) s g s' g' \<longleftrightarrow>
     (\<exists>w g''. s = w @ s' \<and> matches r s g s' g'' \<and> g' = g''(n \<mapsto> w))"
proof
  assume "matches (Grp n r) s g s' g'"
  then obtain g'' where m: "matches r s g s' g''"
    and g': "g' = g''(n \<mapsto> take (length s - length s') s)" by auto
  from matches_suffix [OF m] obtain w where w: "s = w @ s'" by (elim exE)
  then have "take (length s - length s') s = w" by simp
  with g' have "g' = g''(n \<mapsto> w)" by (simp only:)
  with m w have "s = w @ s' \<and> matches r s g s' g'' \<and> g' = g''(n \<mapsto> w)" by (intro conjI)
  then show "\<exists>w g''. s = w @ s' \<and> matches r s g s' g'' \<and> g' = g''(n \<mapsto> w)"
    by (intro exI)
next
  assume "\<exists>w g''. s = w @ s' \<and> matches r s g s' g'' \<and> g' = g''(n \<mapsto> w)"
  then obtain w g'' where w: "s = w @ s'" and m: "matches r s g s' g''" and g': "g' = g''(n \<mapsto> w)"
    by (elim exE conjE)
  from w have "take (length s - length s') s = w" by simp
  with g' have "g' = g''(n \<mapsto> take (length s - length s') s)" by (simp only:)
  with m have "matches r s g s' g'' \<and> g' = g''(n \<mapsto> take (length s - length s') s)"
    by (intro conjI)
  then have "\<exists>g''. matches r s g s' g'' \<and> g' = g''(n \<mapsto> take (length s - length s') s)"
    by (intro exI)
  then show "matches (Grp n r) s g s' g'" by (simp only: matches.simps)
qed

lemma matches_seq_Nil: "matches (seq []) s g s' g' \<longleftrightarrow> s' = s \<and> g' = g"
  unfolding seq_def by simp

lemma matches_seq_Cons:
  "matches (seq (r # rs)) s g s' g' \<longleftrightarrow> (\<exists>s1 g1. matches r s g s1 g1 \<and> matches (seq rs) s1 g1 s' g')"
  by (simp add: seq_def)

lemma matches_lits:
  "matches (seq (lits w @ rs)) s g s' g' \<longleftrightarrow> (\<exists>s1. s = w @ s1 \<and> matches (seq rs) s1 g s' g')"
  by (induction w arbitrary: s) (auto simp: lits_def matches_seq_Cons)

lemma matches_lits_only: "matches (seq (lits w)) s g s' g' \<longleftrightarrow> s = w @ s' \<and> g' = g"
  using matches_lits [of w "[]" s g s' g'] by (auto simp: matches_seq_Nil)

lemma in_cls_Digit: "list_all (in_cls Digit) p = list_all is_digit p"
  by (simp add: list_all_iff)


lemma story_group:
  assumes "matches (Grp 3 (seq (lits ''[US'' @ [Plus Digit, Atom (Lit CHR '']'')]))) s g s' g'"
  shows "\<exists>ds. ds \<noteq> [] \<and> list_all is_digit ds \<and> s = ''[US'' @ ds @ '']'' @ s'
            \<and> g' = g(3 \<mapsto> ''[US'' @ ds @ '']'')"
proof -
  from assms [unfolded matches_Grp] obtain w g'' where w: "s = w @ s'" and g': "g' = g''(3 \<mapsto> w)"
    and m: "matches (seq (lits ''[US'' @ [Plus Digit, Atom (Lit CHR '']'')])) s g s' g''"
    by (elim exE conjE)
  from m [unfolded matches_lits] obtain s1 where s1: "s = ''[US'' @ s1"
    and m1: "matches (seq [Plus Digit, Atom (Lit CHR '']'')]) s1 g s' g''"
    by (elim exE conjE)
  from m1 obtain ds where ds: "ds \<noteq> []" "list_all is_digit ds" "s1 = ds @ '']'' @ s'" and g: "g'' = g"
    by (auto simp: matches_seq_Cons matches_seq_Nil in_cls_Digit)
  from w s1 ds(3) have "w = ''[US'' @ ds @ '']''" by simp
  with g' g have "g' = g(3 \<mapsto> ''[US'' @ ds @ '']'')" by (simp only:)
  moreover from s1 ds(3) have "s = ''[US'' @ ds @ '']'' @ s'" by simp
  ultimately have "ds \<noteq> [] \<and> list_all is_digit ds \<and> s = ''[US'' @ ds @ '']'' @ s'
            \<and> g' = g(3 \<mapsto> ''[US'' @ ds @ '']'')" using ds(1,2) by (intro conjI)
  then show ?thesis by (intro exI)
qed

lemma parallel_group:
  assumes "matches (Grp 2 (seq (lits ''[P]''))) s g s' g'"
  shows "s = ''[P]'' @ s' \<and> g' = g(2 \<mapsto> ''[P]'')"
proof -
  from assms [unfolded matches_Grp] obtain w g'' where w: "s = w @ s'" and g': "g' = g''(2 \<mapsto> w)"
    and m: "matches (seq (lits ''[P]'')) s g s' g''"
    by (elim exE conjE)
  from m have s: "s = ''[P]'' @ s'" and g: "g'' = g" unfolding matches_lits_only by simp_all
  from w s have "w = ''[P]''" by simp
  with g' g have "g' = g(2 \<mapsto> ''[P]'')" by (simp only:)
  with s show ?thesis by (intro conjI)
qed

lemma ident_group:
  assumes "matches (Grp 1 (seq [Atom (Lit CHR ''T''), Times 3 Digit])) s g s' g'"
  shows "\<exists>ds. length ds = 3 \<and> list_all is_digit ds \<and> s = CHR ''T'' # ds @ s'
            \<and> g' = g(1 \<mapsto> CHR ''T'' # ds)"
proof -
  from assms [unfolded matches_Grp] obtain w g'' where w: "s = w @ s'" and g': "g' = g''(1 \<mapsto> w)"
    and m: "matches (seq [Atom (Lit CHR ''T''), Times 3 Digit]) s g s' g''"
    by (elim exE conjE)
  from m obtain ds where ds: "length ds = 3" "list_all is_digit ds" "s = CHR ''T'' # ds @ s'"
    and g: "g'' = g"
    by (auto simp: matches_seq_Cons matches_seq_Nil in_cls_Digit)
  from w ds(3) have "w = CHR ''T'' # ds" by simp
  with g' g have "g' = g(1 \<mapsto> CHR ''T'' # ds)" by (simp only:)
  with ds have "length ds = 3 \<and> list_all is_digit ds \<and> s = CHR ''T'' # ds @ s'
            \<and> g' = g(1 \<mapsto> CHR ''T'' # ds)" by (intro conjI)
  then show ?thesis by (intro exI)
qed

lemma description_group:
  assumes "matches (Grp 4 (Plus Dot)) s g s' g'"
  shows "\<exists>d. d \<noteq> [] \<and> NL \<notin> set d \<and> s = d @ s' \<and> g' = g(4 \<mapsto> d)"
proof -
  from assms [unfolded matches_Grp] obtain w g'' where w: "s = w @ s'" and g': "g' = g''(4 \<mapsto> w)"
    and m: "matches (Plus Dot) s g s' g''"
    by (elim exE conjE)
  from m obtain d where d: "d \<noteq> []" "NL \<notin> set d" "s = d @ s'" and g: "g'' = g"
    by (auto simp: list_all_iff)
  from w d(3) have "w = d" by simp
  with g' g have "g' = g(4 \<mapsto> d)" by (simp only:)
  with d have "d \<noteq> [] \<and> NL \<notin> set d \<and> s = d @ s' \<and> g' = g(4 \<mapsto> d)" by (intro conjI)
  then show ?thesis by (intro exI)
qed

lemma matches_keep:
  "matches (Star c) a g b g' \<Longrightarrow> g' = g"
  "matches (Atom c) a g b g' \<Longrightarrow> g' = g"
  by auto

lemma matches_length: "matches r s g s' g' \<Longrightarrow> length s' \<le> length s"
  using matches_suffix [of r s g s' g'] by auto

lemma matches_Atom_length: "matches (Atom c) s g s' g' \<Longrightarrow> length s' < length s"
  by auto

lemma task_match_groups:
  assumes "matches task_pattern s Map.empty rest g"
  shows "\<exists>ds d. length ds = 3 \<and> list_all is_digit ds \<and> d \<noteq> [] \<and> NL \<notin> set d
           \<and> g 1 = Some (CHR ''T'' # ds)
           \<and> (g 2 = None \<or> g 2 = Some ''[P]'')
           \<and> (g 3 = None
                \<or> (\<exists>n. n \<noteq> [] \<and> list_all is_digit n \<and> g 3 = Some (''[US'' @ n @ '']'')))
           \<and> g 4 = Some d \<and> length rest < length s"
proof -
  from assms [unfolded task_pattern_def matches_seq_Cons matches_seq_Nil]
  obtain s1 g1 s2 g2 s3 g3 s4 g4 s5 g5 s6 g6 s7 g7 s8 g8 s9 g9 s10 g10 s11 g11 s12 g12 where
    m1: "matches (Atom (Lit CHR ''-'')) s Map.empty s1 g1"
    and m2: "matches (Star Space) s1 g1 s2 g2"
    and m3: "matches (Atom (Lit CHR ''['')) s2 g2 s3 g3"
    and m4: "matches (Star Space) s3 g3 s4 g4"
    and m5: "matches (Atom (Lit CHR '']'')) s4 g4 s5 g5"
    and m6: "matches (Star Space) s5 g5 s6 g6"
    and m7: "matches (Grp 1 (seq [Atom (Lit CHR ''T''), Times 3 Digit])) s6 g6 s7 g7"
    and m8: "matches (Star Space) s7 g7 s8 g8"
    and m9: "matches (Opt (Grp 2 (seq (lits ''[P]'')))) s8 g8 s9 g9"
    and m10: "matches (Star Space) s9 g9 s10 g10"
    and m11: "matches (Opt (Grp 3 (seq (lits ''[US'' @ [Plus Digit, Atom (Lit CHR '']'')])))) s10 g10 s11 g11"
    and m12: "matches (Star Space) s11 g11 s12 g12"
    and m13: "matches (Grp 4 (Plus Dot)) s12 g12 rest g"
    by (elim exE conjE) fast
  have g6: "g6 = Map.empty"
    using matches_keep(2) [OF m1] matches_keep(1) [OF m2] matches_keep(2) [OF m3]
      matches_keep(1) [OF m4] matches_keep(2) [OF m5] matches_keep(1) [OF m6]
    by simp
  from ident_group [OF m7] obtain ds where ds: "length ds = 3" "list_all is_digit ds"
    and g7: "g7 = g6(1 \<mapsto> CHR ''T'' # ds)" by (elim exE conjE)
  have g8: "g8 = g7" using m8 by (rule matches_keep)
  have g9: "g9 = g8 \<or> g9 = g8(2 \<mapsto> ''[P]'')"
    using m9 parallel_group [of s8 g8 s9 g9] by (simp only: matches.simps) fast
  have g10: "g10 = g9" using m10 by (rule matches_keep)
  have g11: "g11 = g10 \<or> (\<exists>n. n \<noteq> [] \<and> list_all is_digit n \<and> g11 = g10(3 \<mapsto> ''[US'' @ n @ '']''))"
  proof -
    from m11 have "matches (Grp 3 (seq (lits ''[US'' @ [Plus Digit, Atom (Lit CHR '']'')]))) s10 g10 s11 g11
       \<or> g11 = g10" by (simp only: matches.simps) fast
    then show ?thesis
    proof
      assume "matches (Grp 3 (seq (lits ''[US'' @ [Plus Digit, Atom (Lit CHR '']'')]))) s10 g10 s11 g11"
      from story_group [OF this] obtain n where "n \<noteq> []" "list_all is_digit n"
        "g11 = g10(3 \<mapsto> ''[US'' @ n @ '']'')" by (elim exE conjE)
      then have "n \<noteq> [] \<and> list_all is_digit n \<and> g11 = g10(3 \<mapsto> ''[US'' @ n @ '']'')"
        by (intro conjI)
      then have "\<exists>n. n \<noteq> [] \<and> list_all is_digit n \<and> g11 = g10(3 \<mapsto> ''[US'' @ n @ '']'')"
        by (intro exI)
      then show ?thesis by (rule disjI2)
    next
      assume "g11 = g10"
      then show ?thesis by (rule disjI1)
    qed
  qed
  have g12: "g12 = g11" using m12 by (rule matches_keep)
  from description_group [OF m13] obtain d where d: "d \<noteq> []" "NL \<notin> set d"
    and g: "g = g12(4 \<mapsto> d)" by (elim exE conjE)
  have v1: "g 1 = Some (CHR ''T'' # ds)"
    using g g12 g11 g10 g9 g8 g7 g6 by (elim disjE exE conjE) simp_all
  have v2: "g 2 = None \<or> g 2 = Some ''[P]''"
    using g g12 g11 g10 g9 g8 g7 g6 by (elim disjE exE conjE) simp_all
  have v3: "g 3 = None \<or> (\<exists>n. n \<noteq> [] \<and> list_all is_digit n \<and> g 3 = Some (''[US'' @ n @ '']''))"
    using g g12 g11 g10 g9 g8 g7 g6 by (elim disjE exE conjE) simp_all
  have v4: "g 4 = Some d" using g by simp
  have "length s1 < length s" using m1 by (rule matches_Atom_length)
  moreover have "length rest \<le> length s1"
    using m2 m3 m4 m5 m6 m7 m8 m9 m10 m11 m12 m13
    by (meson matches_length le_trans)
  ultimately have v5: "length rest < length s" by simp
  from ds d v1 v2 v3 v4 v5 have "length ds = 3 \<and> list_all is_digit ds \<and> d \<noteq> [] \<and> NL \<notin> set d
           \<and> g 1 = Some (CHR ''T'' # ds)
           \<and> (g 2 = None \<or> g 2 = Some ''[P]'')
           \<and> (g 3 = None
                \<or> (\<exists>n. n \<noteq> [] \<and> list_all is_digit n \<and> g 3 = Some (''[US'' @ n @ '']'')))
           \<and> g 4 = Some d \<and> length rest < length s" by (intro conjI)
  then show ?thesis by (intro exI)
qed

section \<open>The task parser: stories and phases\<close>

lemma task_match_consumes:
  "match_at task_pattern s = Some (g, rest) \<Longrightarrow> length rest < length s"
  using task_match_groups [OF match_at_sound] by blast

lemma findall_task_Nil: "findall task_pattern [] = []"
proof (cases "match_at task_pattern []")
  case None
  then show ?thesis by simp
next
  case (Some x)
  then obtain g rest where "match_at task_pattern [] = Some (g, rest)" by (cases x) auto
  from task_match_consumes [OF this] show ?thesis by simp
qed

lemma findall_task_hit:
  assumes "match_at task_pattern s = Some (g, rest)"
  shows "findall task_pattern s = g # findall task_pattern rest"
proof (cases s)
  case Nil
  with task_match_consumes [OF assms] show ?thesis by simp
next
  case (Cons c cs)
  with task_match_consumes [OF assms] have "length rest \<le> length cs" by simp
  with assms Cons show ?thesis by simp
qed

lemma findall_task_miss:
  "match_at task_pattern (c # cs) = None \<Longrightarrow> findall task_pattern (c # cs) = findall task_pattern cs"
  by simp

lemma findall_set:
  "g \<in> set (findall r s) \<Longrightarrow> \<exists>u rest. match_at r u = Some (g, rest)"
proof (induction r s rule: findall.induct)
  case (1 r)
  then show ?case by (cases "match_at r []") (auto intro: sym)
next
  case (2 r c cs)
  show ?case
  proof (cases "match_at r (c # cs)")
    case None
    with 2 show ?thesis by auto
  next
    case (Some x)
    obtain g0 rest where x: "x = (g0, rest)" by (cases x)
    show ?thesis
    proof (cases "g = g0")
      case True
      with Some x show ?thesis by blast
    next
      case False
      with "2.prems" Some x
      have "g \<in> set (findall r (if length rest \<le> length cs then rest else cs))" by simp
      from "2.IH"(2) [OF Some x [symmetric] this] show ?thesis .
    qed
  qed
qed

lemma no_dash_no_match: "c \<noteq> CHR ''-'' \<Longrightarrow> match_at task_pattern (c # cs) = None"
  by (simp add: match_at_def task_pattern_def seq_def)

lemma story_of_tag:
  assumes "n \<noteq> []" and "g 3 = Some (''[US'' @ n @ '']'')"
  shows "story (mk_task g) = Some n" and "phase_of (mk_task g) = n"
proof -
  have "grp g 3 = ''[US'' @ n @ '']''" using assms(2) by (simp add: grp_def)
  then show s: "story (mk_task g) = Some n"
    by (simp add: mk_task_def butlast_append)
  then show "phase_of (mk_task g) = n"
    using assms(1) by (simp add: phase_of_def has_story_def)
qed

lemma story_of_no_tag: "g 3 = None \<Longrightarrow> story (mk_task g) = None"
  by (simp add: mk_task_def grp_def)

lemma setup_phase:
  "story t = None \<Longrightarrow> contains ''setup'' (lower (description t)) \<Longrightarrow> phase_of t = ''setup''"
  by (simp add: phase_of_def has_story_def)

subsection \<open>Text before the first match\<close>

lemma no_dash_prefix:
  assumes "CHR ''-'' \<notin> set pre"
  shows "\<forall>k<length pre. match_at task_pattern (drop k (pre @ s)) = None"
proof (intro allI impI)
  fix k assume k: "k < length pre"
  then have "drop k (pre @ s) = pre ! k # drop (Suc k) (pre @ s)"
    by (simp add: Cons_nth_drop_Suc nth_append)
  moreover have "pre ! k \<noteq> CHR ''-''" using assms k by (metis nth_mem)
  ultimately show "match_at task_pattern (drop k (pre @ s)) = None"
    by (simp add: no_dash_no_match)
qed

lemma findall_task_prefix:
  "\<forall>k<length pre. match_at task_pattern (drop k (pre @ s)) = None
     \<Longrightarrow> findall task_pattern (pre @ s) = findall task_pattern s"
proof (induction pre)
  case Nil
  then show ?case by simp
next
  case (Cons c pre)
  from Cons.prems have "match_at task_pattern (c # pre @ s) = None" by force
  then have "findall task_pattern ((c # pre) @ s) = findall task_pattern (pre @ s)" by simp
  moreover have "\<forall>k<length pre. match_at task_pattern (drop k (pre @ s)) = None"
    using Cons.prems by force
  ultimately show ?case using Cons.IH by simp
qed

subsection \<open>Every match of the scan is a match on a suffix of the text\<close>

lemma match_at_suffix:
  assumes "match_at r s = Some (g, rest)"
  shows "\<exists>w. s = w @ rest"
  by (rule matches_suffix [OF match_at_sound [OF assms]])

lemma findall_suffix:
  "g \<in> set (findall r s) \<Longrightarrow> \<exists>pre u rest. s = pre @ u \<and> match_at r u = Some (g, rest)"
proof (induction r s rule: findall.induct)
  case (1 r)
  show ?case
  proof (cases "match_at r []")
    case None
    with 1 show ?thesis by simp
  next
    case (Some x)
    obtain g0 rest0 where x: "x = (g0, rest0)" by (cases x)
    from 1 Some x have "g = g0" by simp
    with Some x have "[] = [] @ [] \<and> match_at r [] = Some (g, rest0)" by simp
    then show ?thesis by (intro exI)
  qed
next
  case (2 r c cs)
  show ?case
  proof (cases "match_at r (c # cs)")
    case None
    with "2.prems" have "g \<in> set (findall r cs)" by simp
    from "2.IH"(1) [OF None this]
    obtain pre u rest where p: "cs = pre @ u" and m: "match_at r u = Some (g, rest)"
      by (elim exE conjE)
    from p have "c # cs = (c # pre) @ u" by simp
    with m have "c # cs = (c # pre) @ u \<and> match_at r u = Some (g, rest)" by (intro conjI)
    then show ?thesis by (intro exI)
  next
    case (Some x)
    obtain g0 rest0 where x: "x = (g0, rest0)" by (cases x)
    show ?thesis
    proof (cases "g = g0")
      case True
      with Some x have "c # cs = [] @ (c # cs) \<and> match_at r (c # cs) = Some (g, rest0)" by simp
      then show ?thesis by (intro exI)
    next
      case False
      define nxt where "nxt = (if length rest0 \<le> length cs then rest0 else cs)"
      from False "2.prems" Some x have "g \<in> set (findall r nxt)" by (simp add: nxt_def)
      then have "g \<in> set (findall r (if length rest0 \<le> length cs then rest0 else cs))"
        by (simp only: nxt_def)
      from "2.IH"(2) [OF Some x [symmetric] this]
      obtain pre u rest where n: "nxt = pre @ u" and m: "match_at r u = Some (g, rest)"
        unfolding nxt_def [symmetric] by (elim exE conjE)
      from Some x have "match_at r (c # cs) = Some (g0, rest0)" by simp
      from match_at_suffix [OF this] obtain w where w: "c # cs = w @ rest0" by (elim exE)
      have "\<exists>v. c # cs = v @ nxt"
      proof (cases "length rest0 \<le> length cs")
        case True
        then have "nxt = rest0" by (simp add: nxt_def)
        with w have "c # cs = w @ nxt" by (simp only:)
        then show ?thesis by (rule exI)
      next
        case False
        then have "nxt = cs" by (simp add: nxt_def)
        then have "c # cs = [c] @ nxt" by simp
        then show ?thesis by (rule exI)
      qed
      then obtain v where "c # cs = v @ nxt" by (elim exE)
      with n have "c # cs = (v @ pre) @ u" by simp
      with m have "c # cs = (v @ pre) @ u \<and> match_at r u = Some (g, rest)" by (intro conjI)
      then show ?thesis by (intro exI)
    qed
  qed
qed

subsection \<open>The way the matcher takes through an item with a story tag\<close>

text \<open>
  The repetitions of the pattern are greedy: on an item they take the whole run of whitespace,
  of digits, or of the description, and the rest of the pattern matches at the first try.
\<close>

lemma in_cls_Space_eq: "in_cls Space = is_space"
  by (rule ext) simp

lemma in_cls_Digit_eq: "in_cls Digit = is_digit"
  by (rule ext) simp

lemma take_exact: "take (length (w @ s) - length s) (w @ s) = w"
  by simp

lemma star_max_greedy:
  "list_all p w \<Longrightarrow> star_max p s k = Some x \<Longrightarrow> star_max p (w @ s) k = Some x"
  by (induction w) auto

lemma star_max_stop: "s = [] \<or> \<not> p (hd s) \<Longrightarrow> star_max p s k = k s"
  by (cases s) auto

lemma space_run:
  assumes "list_all is_space w" and "s = [] \<or> \<not> is_space (hd s)"
    and "k s g = Some x"
  shows "rmatch (Star Space) (w @ s) g k = Some x"
proof -
  have "star_max is_space s (\<lambda>s'. k s' g) = Some x"
    using assms(2,3) by (simp add: star_max_stop)
  with assms(1) have "star_max is_space (w @ s) (\<lambda>s'. k s' g) = Some x"
    by (rule star_max_greedy)
  then show ?thesis by (simp add: in_cls_Space_eq)
qed

lemma times_exact:
  "length ds = n \<Longrightarrow> list_all p ds \<Longrightarrow> times n p (ds @ s) k = k s"
  by (induction n arbitrary: ds) (auto simp: length_Suc_conv)

lemma rmatch_seq_Nil: "rmatch (seq []) s g k = k s g"
  by (simp add: seq_def)

lemma rmatch_seq_Cons:
  "rmatch (seq (r # rs)) s g k = rmatch r s g (\<lambda>s' g'. rmatch (seq rs) s' g' k)"
  by (simp add: seq_def)

lemma rmatch_lits:
  "rmatch (seq (lits w @ rs)) (w @ s) g k = rmatch (seq rs) s g k"
  by (induction w) (simp_all add: lits_def rmatch_seq_Cons)

lemma ident_group_run:
  assumes "length ds = 3" and "list_all is_digit ds"
  shows "rmatch (Grp 1 (seq [Atom (Lit CHR ''T''), Times 3 Digit])) (CHR ''T'' # ds @ s) g k
           = k s (g(1 \<mapsto> CHR ''T'' # ds))"
  using assms by (simp add: rmatch_seq_Cons rmatch_seq_Nil in_cls_Digit_eq times_exact)

lemma parallel_group_run:
  "rmatch (Grp 2 (seq (lits ''[P]''))) (''[P]'' @ s) g k = k s (g(2 \<mapsto> ''[P]''))"
  by (simp add: lits_def seq_def)

lemma parallel_group_fails:
  "rmatch (Grp 2 (seq (lits ''[P]''))) (''[US'' @ s) g k = None"
  by (simp add: lits_def seq_def)

lemma plus_greedy:
  assumes "in_cls cl c" and "list_all (in_cls cl) w"
    and "star_max (in_cls cl) s (\<lambda>s'. k s' g) = Some x"
  shows "rmatch (Plus cl) (c # w @ s) g k = Some x"
  using assms(1) star_max_greedy [OF assms(2,3)] by simp

lemma story_group_run:
  assumes "n \<noteq> []" and "list_all is_digit n"
    and "k s (g(3 \<mapsto> ''[US'' @ n @ '']'')) = Some x"
  shows "rmatch (Grp 3 (seq (lits ''[US'' @ [Plus Digit, Atom (Lit CHR '']'')])))
           (''[US'' @ n @ '']'' @ s) g k = Some x"
proof -
  from assms(1) obtain c n' where n: "n = c # n'" by (cases n) auto
  define u where "u = ''[US'' @ n @ '']'' @ s"
  define K where "K = (\<lambda>s' g'. k s' (g'(3 \<mapsto> take (length u - length s') u)))"
  define K2 where "K2 = (\<lambda>s' g'. rmatch (seq [Atom (Lit CHR '']'')]) s' g' K)"
  have "u = (''[US'' @ n @ '']'') @ s" by (simp add: u_def)
  then have "take (length u - length s) u = ''[US'' @ n @ '']''" by (simp only: take_exact)
  with assms(3) have Ks: "K s g = Some x" by (simp only: K_def)
  then have "K2 ('']'' @ s) g = Some x"
    by (simp add: K2_def rmatch_seq_Cons rmatch_seq_Nil)
  then have "star_max (in_cls Digit) ('']'' @ s) (\<lambda>s'. K2 s' g) = Some x"
    by (simp add: is_digit_def)
  moreover have "in_cls Digit c" and "list_all (in_cls Digit) n'"
    using assms(2) n by (simp_all add: list_all_iff)
  ultimately have "rmatch (Plus Digit) (c # n' @ '']'' @ s) g K2 = Some x"
    by (intro plus_greedy)
  then have "rmatch (seq [Plus Digit, Atom (Lit CHR '']'')]) (n @ '']'' @ s) g K = Some x"
    unfolding K2_def n by (simp only: rmatch_seq_Cons append_Cons)
  then have "rmatch (seq (lits ''[US'' @ [Plus Digit, Atom (Lit CHR '']'')])) u g K = Some x"
    unfolding u_def by (simp only: rmatch_lits)
  then show ?thesis
    unfolding K_def u_def by (simp only: rmatch.simps)
qed

lemma description_group_run:
  assumes "d \<noteq> []" and "NL \<notin> set d" and "tail = [] \<or> hd tail = NL"
    and "k tail (g(4 \<mapsto> d)) = Some x"
  shows "rmatch (Grp 4 (Plus Dot)) (d @ tail) g k = Some x"
proof -
  from assms(1) obtain c d' where d: "d = c # d'" by (cases d) auto
  let ?u = "d @ tail"
  let ?K = "\<lambda>s'. k s' (g(4 \<mapsto> take (length ?u - length s') ?u))"
  have "star_max (in_cls Dot) tail ?K = Some x"
    using assms(3,4) by (auto simp: star_max_stop)
  moreover have "list_all (in_cls Dot) d'" using assms(2) d by (auto simp: list_all_iff)
  ultimately have "star_max (in_cls Dot) (d' @ tail) ?K = Some x"
    by (intro star_max_greedy)
  then have "star_max (in_cls Dot) (d' @ tail) ?K = Some x" .
  moreover have "c \<noteq> NL" using assms(2) d by auto
  ultimately show ?thesis using d by simp
qed

lemma seq_atom:
  "rmatch (seq rs) s g k = Some x \<Longrightarrow> rmatch (seq (Atom (Lit c) # rs)) ([c] @ s) g k = Some x"
  by (simp add: rmatch_seq_Cons)

lemma seq_space:
  assumes "list_all is_space w" and "s = [] \<or> \<not> is_space (hd s)"
    and "rmatch (seq rs) s g k = Some x"
  shows "rmatch (seq (Star Space # rs)) (w @ s) g k = Some x"
  unfolding rmatch_seq_Cons using assms by (intro space_run)

lemma seq_ident:
  assumes "length ds = 3" and "list_all is_digit ds"
    and "rmatch (seq rs) s (g(1 \<mapsto> CHR ''T'' # ds)) k = Some x"
  shows "rmatch (seq (Grp 1 (seq [Atom (Lit CHR ''T''), Times 3 Digit]) # rs))
           (CHR ''T'' # ds @ s) g k = Some x"
  unfolding rmatch_seq_Cons using assms by (simp only: ident_group_run)

lemma seq_parallel:
  assumes "rmatch (seq rs) s (g(2 \<mapsto> ''[P]'')) k = Some x"
  shows "rmatch (seq (Opt (Grp 2 (seq (lits ''[P]''))) # rs)) (''[P]'' @ s) g k = Some x"
proof -
  have "rmatch (Grp 2 (seq (lits ''[P]''))) (''[P]'' @ s) g (\<lambda>s' g'. rmatch (seq rs) s' g' k)
          = Some x"
    using assms by (simp only: parallel_group_run)
  then show ?thesis unfolding rmatch_seq_Cons by (simp only: rmatch.simps option.case)
qed

lemma seq_not_parallel:
  assumes "rmatch (seq rs) (''[US'' @ s) g k = Some x"
  shows "rmatch (seq (Opt (Grp 2 (seq (lits ''[P]''))) # rs)) (''[US'' @ s) g k = Some x"
proof -
  have "rmatch (Grp 2 (seq (lits ''[P]''))) (''[US'' @ s) g (\<lambda>s' g'. rmatch (seq rs) s' g' k)
          = None"
    by (rule parallel_group_fails)
  with assms show ?thesis unfolding rmatch_seq_Cons by (simp only: rmatch.simps option.case)
qed

lemma seq_story:
  assumes "n \<noteq> []" and "list_all is_digit n"
    and "rmatch (seq rs) s (g(3 \<mapsto> ''[US'' @ n @ '']'')) k = Some x"
  shows "rmatch (seq (Opt (Grp 3 (seq (lits ''[US'' @ [Plus Digit, Atom (Lit CHR '']'')]))) # rs))
           (''[US'' @ n @ '']'' @ s) g k = Some x"
proof -
  have "rmatch (Grp 3 (seq (lits ''[US'' @ [Plus Digit, Atom (Lit CHR '']'')])))
          (''[US'' @ n @ '']'' @ s) g (\<lambda>s' g'. rmatch (seq rs) s' g' k) = Some x"
    using assms by (intro story_group_run)
  then show ?thesis unfolding rmatch_seq_Cons by (simp only: rmatch.simps option.case)
qed

lemma seq_description:
  assumes "d \<noteq> []" and "NL \<notin> set d" and "tail = [] \<or> hd tail = NL"
  shows "rmatch (seq [Grp 4 (Plus Dot)]) (d @ tail) g (\<lambda>s' g'. Some (g', s'))
           = Some (g(4 \<mapsto> d), tail)"
  unfolding rmatch_seq_Cons using assms
  by (intro description_group_run) (simp_all add: rmatch_seq_Nil)

text \<open>The part of the pattern from the story tag on, on a tag, whitespace and a description.\<close>

lemma from_story:
  assumes n: "n \<noteq> []" "list_all is_digit n"
    and w5: "list_all is_space w5" and w6: "list_all is_space w6"
    and d: "d \<noteq> []" "\<not> is_space (hd d)" "NL \<notin> set d"
    and tail: "tail = [] \<or> hd tail = NL"
  shows "rmatch (seq [Star Space,
            Opt (Grp 3 (seq (lits ''[US'' @ [Plus Digit, Atom (Lit CHR '']'')]))), Star Space,
            Grp 4 (Plus Dot)])
           (w5 @ ''[US'' @ n @ '']'' @ w6 @ d @ tail) g (\<lambda>s' g'. Some (g', s'))
         = Some (g(3 \<mapsto> ''[US'' @ n @ '']'', 4 \<mapsto> d), tail)"
proof -
  have s13: "rmatch (seq [Grp 4 (Plus Dot)]) (d @ tail) (g(3 \<mapsto> ''[US'' @ n @ '']''))
               (\<lambda>s' g'. Some (g', s'))
             = Some (g(3 \<mapsto> ''[US'' @ n @ '']'', 4 \<mapsto> d), tail)"
    using d(1,3) tail by (rule seq_description)
  have dt: "d @ tail = [] \<or> \<not> is_space (hd (d @ tail))" using d(1,2) by simp
  have s12: "rmatch (seq [Star Space, Grp 4 (Plus Dot)]) (w6 @ d @ tail)
               (g(3 \<mapsto> ''[US'' @ n @ '']'')) (\<lambda>s' g'. Some (g', s'))
             = Some (g(3 \<mapsto> ''[US'' @ n @ '']'', 4 \<mapsto> d), tail)"
    using w6 dt s13 by (rule seq_space)
  have s11: "rmatch (seq [Opt (Grp 3 (seq (lits ''[US'' @ [Plus Digit, Atom (Lit CHR '']'')]))),
                 Star Space, Grp 4 (Plus Dot)])
               (''[US'' @ n @ '']'' @ w6 @ d @ tail) g (\<lambda>s' g'. Some (g', s'))
             = Some (g(3 \<mapsto> ''[US'' @ n @ '']'', 4 \<mapsto> d), tail)"
    using n s12 by (rule seq_story)
  have st: "''[US'' @ n @ '']'' @ w6 @ d @ tail = []
            \<or> \<not> is_space (hd (''[US'' @ n @ '']'' @ w6 @ d @ tail))"
    by (simp add: is_space_def)
  show ?thesis using w5 st s11 by (rule seq_space)
qed

text \<open>The part of the pattern up to the identifier.\<close>

lemma to_ident:
  assumes w: "list_all is_space w1" "list_all is_space w2" "list_all is_space w3"
    and ds: "length ds = 3" "list_all is_digit ds"
    and rest: "rmatch (seq rs) s [1 \<mapsto> CHR ''T'' # ds] k = Some x"
  shows "rmatch (seq (Atom (Lit CHR ''-'') # Star Space # Atom (Lit CHR ''['') # Star Space
            # Atom (Lit CHR '']'') # Star Space
            # Grp 1 (seq [Atom (Lit CHR ''T''), Times 3 Digit]) # rs))
           (''-'' @ w1 @ ''['' @ w2 @ '']'' @ w3 @ CHR ''T'' # ds @ s) Map.empty k = Some x"
proof -
  have s7: "rmatch (seq (Grp 1 (seq [Atom (Lit CHR ''T''), Times 3 Digit]) # rs))
              (CHR ''T'' # ds @ s) Map.empty k = Some x"
    using ds rest by (rule seq_ident)
  have "CHR ''T'' # ds @ s = [] \<or> \<not> is_space (hd (CHR ''T'' # ds @ s))"
    by (simp add: is_space_def)
  with w(3) have s6: "rmatch (seq (Star Space
            # Grp 1 (seq [Atom (Lit CHR ''T''), Times 3 Digit]) # rs))
              (w3 @ CHR ''T'' # ds @ s) Map.empty k = Some x"
    using s7 by (rule seq_space)
  then have s5: "rmatch (seq (Atom (Lit CHR '']'') # Star Space
            # Grp 1 (seq [Atom (Lit CHR ''T''), Times 3 Digit]) # rs))
              ('']'' @ w3 @ CHR ''T'' # ds @ s) Map.empty k = Some x"
    by (rule seq_atom)
  have "'']'' @ w3 @ CHR ''T'' # ds @ s = [] \<or> \<not> is_space (hd ('']'' @ w3 @ CHR ''T'' # ds @ s))"
    by (simp add: is_space_def)
  with w(2) have s4: "rmatch (seq (Star Space # Atom (Lit CHR '']'') # Star Space
            # Grp 1 (seq [Atom (Lit CHR ''T''), Times 3 Digit]) # rs))
              (w2 @ '']'' @ w3 @ CHR ''T'' # ds @ s) Map.empty k = Some x"
    using s5 by (rule seq_space)
  then have s3: "rmatch (seq (Atom (Lit CHR ''['') # Star Space # Atom (Lit CHR '']'') # Star Space
            # Grp 1 (seq [Atom (Lit CHR ''T''), Times 3 Digit]) # rs))
              (''['' @ w2 @ '']'' @ w3 @ CHR ''T'' # ds @ s) Map.empty k = Some x"
    by (rule seq_atom)
  have "''['' @ w2 @ '']'' @ w3 @ CHR ''T'' # ds @ s = []
        \<or> \<not> is_space (hd (''['' @ w2 @ '']'' @ w3 @ CHR ''T'' # ds @ s))"
    by (simp add: is_space_def)
  with w(1) have s2: "rmatch (seq (Star Space # Atom (Lit CHR ''['') # Star Space
            # Atom (Lit CHR '']'') # Star Space
            # Grp 1 (seq [Atom (Lit CHR ''T''), Times 3 Digit]) # rs))
              (w1 @ ''['' @ w2 @ '']'' @ w3 @ CHR ''T'' # ds @ s) Map.empty k = Some x"
    using s3 by (rule seq_space)
  then show ?thesis by (rule seq_atom)
qed

text \<open>A complete item: the groups of its match.\<close>

lemma task_item_match:
  assumes w: "list_all is_space w1" "list_all is_space w2" "list_all is_space w3"
      "list_all is_space w4" "list_all is_space w5" "list_all is_space w6"
    and ds: "length ds = 3" "list_all is_digit ds"
    and p: "p = [] \<or> p = ''[P]''"
    and n: "n \<noteq> []" "list_all is_digit n"
    and d: "d \<noteq> []" "\<not> is_space (hd d)" "NL \<notin> set d"
    and tail: "tail = [] \<or> hd tail = NL"
  shows "match_at task_pattern (task_item w1 w2 w3 ds w4 p w5 n w6 d @ tail)
         = Some ((if p = [] then [1 \<mapsto> CHR ''T'' # ds]
                  else [1 \<mapsto> CHR ''T'' # ds, 2 \<mapsto> ''[P]''])
                   (3 \<mapsto> ''[US'' @ n @ '']'', 4 \<mapsto> d), tail)"
  using p
proof
  assume p: "p = []"
  have "rmatch (seq [Star Space,
            Opt (Grp 3 (seq (lits ''[US'' @ [Plus Digit, Atom (Lit CHR '']'')]))), Star Space,
            Grp 4 (Plus Dot)])
           ([] @ ''[US'' @ n @ '']'' @ w6 @ d @ tail) [1 \<mapsto> CHR ''T'' # ds]
           (\<lambda>s' g'. Some (g', s'))
         = Some ([1 \<mapsto> CHR ''T'' # ds, 3 \<mapsto> ''[US'' @ n @ '']'', 4 \<mapsto> d], tail)"
    using n _ w(6) d tail by (rule from_story) simp
  then have "rmatch (seq [Star Space,
            Opt (Grp 3 (seq (lits ''[US'' @ [Plus Digit, Atom (Lit CHR '']'')]))), Star Space,
            Grp 4 (Plus Dot)])
           (''[US'' @ (n @ '']'' @ w6 @ d @ tail)) [1 \<mapsto> CHR ''T'' # ds]
           (\<lambda>s' g'. Some (g', s'))
         = Some ([1 \<mapsto> CHR ''T'' # ds, 3 \<mapsto> ''[US'' @ n @ '']'', 4 \<mapsto> d], tail)"
    by (simp only: append_Nil)
  then have s9: "rmatch (seq [Opt (Grp 2 (seq (lits ''[P]''))), Star Space,
            Opt (Grp 3 (seq (lits ''[US'' @ [Plus Digit, Atom (Lit CHR '']'')]))), Star Space,
            Grp 4 (Plus Dot)])
           (''[US'' @ (n @ '']'' @ w6 @ d @ tail)) [1 \<mapsto> CHR ''T'' # ds]
           (\<lambda>s' g'. Some (g', s'))
         = Some ([1 \<mapsto> CHR ''T'' # ds, 3 \<mapsto> ''[US'' @ n @ '']'', 4 \<mapsto> d], tail)"
    by (rule seq_not_parallel)
  have w45: "list_all is_space (w4 @ w5)" using w(4,5) by simp
  have st: "''[US'' @ (n @ '']'' @ w6 @ d @ tail) = []
            \<or> \<not> is_space (hd (''[US'' @ (n @ '']'' @ w6 @ d @ tail)))"
    by (simp add: is_space_def)
  have s8: "rmatch (seq [Star Space, Opt (Grp 2 (seq (lits ''[P]''))), Star Space,
            Opt (Grp 3 (seq (lits ''[US'' @ [Plus Digit, Atom (Lit CHR '']'')]))), Star Space,
            Grp 4 (Plus Dot)])
           ((w4 @ w5) @ ''[US'' @ (n @ '']'' @ w6 @ d @ tail)) [1 \<mapsto> CHR ''T'' # ds]
           (\<lambda>s' g'. Some (g', s'))
         = Some ([1 \<mapsto> CHR ''T'' # ds, 3 \<mapsto> ''[US'' @ n @ '']'', 4 \<mapsto> d], tail)"
    using w45 st s9 by (rule seq_space)
  from to_ident [OF w(1,2,3) ds s8] p show ?thesis
    by (simp add: match_at_def task_pattern_def task_item_def)
next
  assume p: "p = ''[P]''"
  have "rmatch (seq [Star Space,
            Opt (Grp 3 (seq (lits ''[US'' @ [Plus Digit, Atom (Lit CHR '']'')]))), Star Space,
            Grp 4 (Plus Dot)])
           (w5 @ ''[US'' @ n @ '']'' @ w6 @ d @ tail) [1 \<mapsto> CHR ''T'' # ds, 2 \<mapsto> ''[P]'']
           (\<lambda>s' g'. Some (g', s'))
         = Some ([1 \<mapsto> CHR ''T'' # ds, 2 \<mapsto> ''[P]'', 3 \<mapsto> ''[US'' @ n @ '']'', 4 \<mapsto> d], tail)"
    using n w(5,6) d tail by (rule from_story)
  then have s9: "rmatch (seq [Opt (Grp 2 (seq (lits ''[P]''))), Star Space,
            Opt (Grp 3 (seq (lits ''[US'' @ [Plus Digit, Atom (Lit CHR '']'')]))), Star Space,
            Grp 4 (Plus Dot)])
           (''[P]'' @ w5 @ ''[US'' @ n @ '']'' @ w6 @ d @ tail) [1 \<mapsto> CHR ''T'' # ds]
           (\<lambda>s' g'. Some (g', s'))
         = Some ([1 \<mapsto> CHR ''T'' # ds, 2 \<mapsto> ''[P]'', 3 \<mapsto> ''[US'' @ n @ '']'', 4 \<mapsto> d], tail)"
    by (rule seq_parallel)
  have st: "''[P]'' @ w5 @ ''[US'' @ n @ '']'' @ w6 @ d @ tail = []
            \<or> \<not> is_space (hd (''[P]'' @ w5 @ ''[US'' @ n @ '']'' @ w6 @ d @ tail))"
    by (simp add: is_space_def)
  have s8: "rmatch (seq [Star Space, Opt (Grp 2 (seq (lits ''[P]''))), Star Space,
            Opt (Grp 3 (seq (lits ''[US'' @ [Plus Digit, Atom (Lit CHR '']'')]))), Star Space,
            Grp 4 (Plus Dot)])
           (w4 @ ''[P]'' @ w5 @ ''[US'' @ n @ '']'' @ w6 @ d @ tail) [1 \<mapsto> CHR ''T'' # ds]
           (\<lambda>s' g'. Some (g', s'))
         = Some ([1 \<mapsto> CHR ''T'' # ds, 2 \<mapsto> ''[P]'', 3 \<mapsto> ''[US'' @ n @ '']'', 4 \<mapsto> d], tail)"
    using w(4) st s9 by (rule seq_space)
  from to_ident [OF w(1,2,3) ds s8] p show ?thesis
    by (simp add: match_at_def task_pattern_def task_item_def)
qed

lemma butlast_drop_tag: "butlast (drop 3 (''[US'' @ n @ '']'')) = n"
  by (simp add: butlast_append)

lemma mk_task_item:
  assumes "n \<noteq> []" and "p = [] \<or> p = ''[P]''"
  shows "mk_task ((if p = [] then [1 \<mapsto> CHR ''T'' # ds]
                  else [1 \<mapsto> CHR ''T'' # ds, 2 \<mapsto> ''[P]''])
                   (3 \<mapsto> ''[US'' @ n @ '']'', 4 \<mapsto> d))
         = \<lparr>ident = CHR ''T'' # ds, description = strip d, is_parallel = (p \<noteq> []),
            story = Some n, completed = False\<rparr>"
  using assms(2)
proof
  assume "p = []"
  then show ?thesis by (simp add: mk_task_def grp_def butlast_append)
next
  assume "p = ''[P]''"
  then show ?thesis by (simp add: mk_task_def grp_def butlast_append)
qed

lemma phase_of_story:
  "n \<noteq> [] \<Longrightarrow> phase_of \<lparr>ident = a, description = b, is_parallel = c, story = Some n,
      completed = e\<rparr> = n"
  by (simp add: phase_of_def has_story_def)

text \<open>
  C2, amended. The records of the parser are, in order, the matches of the scan, and each
  match is a match of the pattern on the text from some position of the content on. If
  the match has a story tag, the tag is \<open>[US\<close>, digits, \<open>]\<close>, the story of the task is the
  digits alone and the task is grouped into the phase named by these digits, whatever its
  description; a task without story whose description contains "setup" in any case is
  grouped into the setup phase. And a tag is never lost: an item written as the identifier,
  an optional \<open>[P]\<close>, the tag \<open>[USn]\<close> and a description up to the end of its line, standing
  after text without \<open>-\<close>, is parsed into the record with the story \<open>n\<close>, which is grouped
  into the phase \<open>n\<close>.
\<close>

theorem story_phase_is_digits:
  "(\<forall>i<length (parse_content content).
      \<exists>pre u rest.
        content = pre @ u
        \<and> match_at task_pattern u = Some (findall task_pattern content ! i, rest)
        \<and> (case (findall task_pattern content ! i) 3 of
              None \<Rightarrow> story (parse_content content ! i) = None
            | Some tag \<Rightarrow>
                \<exists>n. tag = ''[US'' @ n @ '']'' \<and> n \<noteq> [] \<and> list_all is_digit n
                    \<and> story (parse_content content ! i) = Some n
                    \<and> phase_of (parse_content content ! i) = n)
        \<and> (story (parse_content content ! i) = None
              \<and> contains ''setup'' (lower (description (parse_content content ! i)))
            \<longrightarrow> phase_of (parse_content content ! i) = ''setup''))
   \<and> (list_all is_space w1 \<and> list_all is_space w2 \<and> list_all is_space w3
        \<and> list_all is_space w4 \<and> list_all is_space w5 \<and> list_all is_space w6
        \<and> length ds = 3 \<and> list_all is_digit ds \<and> (p = [] \<or> p = ''[P]'')
        \<and> n \<noteq> [] \<and> list_all is_digit n
        \<and> d \<noteq> [] \<and> \<not> is_space (hd d) \<and> NL \<notin> set d
        \<and> (tail = [] \<or> hd tail = NL) \<and> CHR ''-'' \<notin> set before
      \<longrightarrow> parse_content (before @ task_item w1 w2 w3 ds w4 p w5 n w6 d @ tail)
            = \<lparr>ident = CHR ''T'' # ds, description = strip d, is_parallel = (p \<noteq> []),
               story = Some n, completed = False\<rparr> # parse_content tail
          \<and> phase_of \<lparr>ident = CHR ''T'' # ds, description = strip d, is_parallel = (p \<noteq> []),
               story = Some n, completed = False\<rparr> = n)"
proof (intro conjI allI impI)
  fix i assume i: "i < length (parse_content content)"
  let ?g = "findall task_pattern content ! i"
  let ?t = "parse_content content ! i"
  from i have il: "i < length (findall task_pattern content)" by (simp add: parse_content_def)
  then have t: "?t = mk_task ?g" by (simp add: parse_content_def)
  from il have "?g \<in> set (findall task_pattern content)" by simp
  from findall_suffix [OF this] obtain pre u rest where c: "content = pre @ u"
    and m: "match_at task_pattern u = Some (?g, rest)" by blast
  from task_match_groups [OF match_at_sound [OF m]]
  have g3: "?g 3 = None
      \<or> (\<exists>n. n \<noteq> [] \<and> list_all is_digit n \<and> ?g 3 = Some (''[US'' @ n @ '']''))"
    by (elim exE conjE)
  have tag: "case ?g 3 of
              None \<Rightarrow> story ?t = None
            | Some tag \<Rightarrow>
                \<exists>n. tag = ''[US'' @ n @ '']'' \<and> n \<noteq> [] \<and> list_all is_digit n
                    \<and> story ?t = Some n \<and> phase_of ?t = n"
    using g3
  proof
    assume "?g 3 = None"
    then show ?thesis using t by (simp add: story_of_no_tag)
  next
    assume "\<exists>n. n \<noteq> [] \<and> list_all is_digit n \<and> ?g 3 = Some (''[US'' @ n @ '']'')"
    then obtain n where n: "n \<noteq> []" "list_all is_digit n" "?g 3 = Some (''[US'' @ n @ '']'')"
      by (elim exE conjE)
    from story_of_tag [of n ?g] n t show ?thesis by simp
  qed
  have stp: "story ?t = None \<and> contains ''setup'' (lower (description ?t))
            \<longrightarrow> phase_of ?t = ''setup''"
    by (simp add: setup_phase)
  from c m tag stp
  show "\<exists>pre u rest.
        content = pre @ u
        \<and> match_at task_pattern u = Some (?g, rest)
        \<and> (case ?g 3 of
              None \<Rightarrow> story ?t = None
            | Some tag \<Rightarrow>
                \<exists>n. tag = ''[US'' @ n @ '']'' \<and> n \<noteq> [] \<and> list_all is_digit n
                    \<and> story ?t = Some n \<and> phase_of ?t = n)
        \<and> (story ?t = None \<and> contains ''setup'' (lower (description ?t))
            \<longrightarrow> phase_of ?t = ''setup'')"
    by (intro exI conjI)
next
  assume a: "list_all is_space w1 \<and> list_all is_space w2 \<and> list_all is_space w3
        \<and> list_all is_space w4 \<and> list_all is_space w5 \<and> list_all is_space w6
        \<and> length ds = 3 \<and> list_all is_digit ds \<and> (p = [] \<or> p = ''[P]'')
        \<and> n \<noteq> [] \<and> list_all is_digit n
        \<and> d \<noteq> [] \<and> \<not> is_space (hd d) \<and> NL \<notin> set d
        \<and> (tail = [] \<or> hd tail = NL) \<and> CHR ''-'' \<notin> set before"
  let ?item = "task_item w1 w2 w3 ds w4 p w5 n w6 d"
  let ?g = "(if p = [] then [1 \<mapsto> CHR ''T'' # ds]
                  else [1 \<mapsto> CHR ''T'' # ds, 2 \<mapsto> ''[P]''])
                   (3 \<mapsto> ''[US'' @ n @ '']'', 4 \<mapsto> d)"
  from a have m: "match_at task_pattern (?item @ tail) = Some (?g, tail)"
    by (intro task_item_match) simp_all
  from a have "\<forall>k<length before. match_at task_pattern (drop k (before @ ?item @ tail)) = None"
    by (intro no_dash_prefix) simp
  from findall_task_prefix [OF this] findall_task_hit [OF m]
  have "parse_content (before @ ?item @ tail) = mk_task ?g # parse_content tail"
    by (simp add: parse_content_def)
  then have pc: "parse_content (before @ ?item @ tail) = mk_task ?g # parse_content tail" .
  from a have "n \<noteq> []" and "p = [] \<or> p = ''[P]''" by simp_all
  from pc mk_task_item [OF this]
  show "parse_content (before @ ?item @ tail)
            = \<lparr>ident = CHR ''T'' # ds, description = strip d, is_parallel = (p \<noteq> []),
               story = Some n, completed = False\<rparr> # parse_content tail"
    by (simp only:)
next
  assume a: "list_all is_space w1 \<and> list_all is_space w2 \<and> list_all is_space w3
        \<and> list_all is_space w4 \<and> list_all is_space w5 \<and> list_all is_space w6
        \<and> length ds = 3 \<and> list_all is_digit ds \<and> (p = [] \<or> p = ''[P]'')
        \<and> n \<noteq> [] \<and> list_all is_digit n
        \<and> d \<noteq> [] \<and> \<not> is_space (hd d) \<and> NL \<notin> set d
        \<and> (tail = [] \<or> hd tail = NL) \<and> CHR ''-'' \<notin> set before"
  then show "phase_of \<lparr>ident = CHR ''T'' # ds, description = strip d, is_parallel = (p \<noteq> []),
               story = Some n, completed = False\<rparr> = n"
    by (simp add: phase_of_story)
qed

text \<open>
  C2, as stated, fails: the task parsed from \<open>- [ ] T002 [US1] Setup the database\<close> has
  the story \<open>1\<close> and is grouped into the phase \<open>1\<close>, not \<open>US1\<close>.
\<close>

theorem story_phase_counterexample:
  "map story (parse_content us1_ex) = [Some ''1'']
   \<and> map phase_of (parse_content us1_ex) = [''1'']
   \<and> \<not> (map phase_of (parse_content us1_ex) = [''US1''])"
  by code_simp

theorem story_phase_is_digits_witness:
  "parse_content us1_ex =
     [\<lparr>ident = ''T002'', description = strip ''Setup the database'', is_parallel = False,
       story = Some ''1'', completed = False\<rparr>]
   \<and> phase_of \<lparr>ident = ''T002'', description = strip ''Setup the database'',
       is_parallel = False, story = Some ''1'', completed = False\<rparr> = ''1''
   \<and> 0 < length (parse_content tasks_ex)
   \<and> story (parse_content tasks_ex ! 0) = None
   \<and> contains ''setup'' (lower (description (parse_content tasks_ex ! 0)))
   \<and> phase_of (parse_content tasks_ex ! 0) = ''setup''"
proof -
  have e: "parse_content [] = []" by code_simp
  have i: "[] @ task_item '' '' '' '' '' '' ''002'' '' '' [] [] ''1'' '' '' ''Setup the database'' @ []
           = us1_ex"
    by (simp add: task_item_def us1_ex_def)
  have h: "list_all is_space '' '' \<and> list_all is_space '' '' \<and> list_all is_space '' ''
        \<and> list_all is_space '' '' \<and> list_all is_space [] \<and> list_all is_space '' ''
        \<and> length ''002'' = 3 \<and> list_all is_digit ''002'' \<and> (([]::string) = [] \<or> [] = ''[P]'')
        \<and> ''1'' \<noteq> [] \<and> list_all is_digit ''1''
        \<and> ''Setup the database'' \<noteq> [] \<and> \<not> is_space (hd ''Setup the database'')
        \<and> NL \<notin> set ''Setup the database''
        \<and> (([]::string) = [] \<or> hd [] = NL) \<and> CHR ''-'' \<notin> set []"
    by (simp add: is_space_def is_digit_def)
  note th = story_phase_is_digits [of tasks_ex "'' ''" "'' ''" "'' ''" "'' ''" "[]" "'' ''"
      "''002''" "[]" "''1''" "''Setup the database''" "[]" "[]"]
  from mp [OF conjunct2 [OF th] h]
  have ab: "parse_content us1_ex =
       \<lparr>ident = ''T002'', description = strip ''Setup the database'',
         is_parallel = (([]::string) \<noteq> []), story = Some ''1'', completed = False\<rparr> # []
     \<and> phase_of \<lparr>ident = ''T002'', description = strip ''Setup the database'',
         is_parallel = (([]::string) \<noteq> []), story = Some ''1'', completed = False\<rparr> = ''1''"
    by (simp only: i e)
  have f: "(([]::string) \<noteq> []) = False" by simp
  from ab have a: "parse_content us1_ex =
     [\<lparr>ident = ''T002'', description = strip ''Setup the database'', is_parallel = False,
       story = Some ''1'', completed = False\<rparr>]"
    and b: "phase_of \<lparr>ident = ''T002'', description = strip ''Setup the database'',
       is_parallel = False, story = Some ''1'', completed = False\<rparr> = ''1''"
    by (simp_all only: f)
  have l: "0 < length (parse_content tasks_ex)" by code_simp
  have s: "story (parse_content tasks_ex ! 0) = None" by code_simp
  have c: "contains ''setup'' (lower (description (parse_content tasks_ex ! 0)))" by code_simp
  from mp [OF spec [OF conjunct1 [OF th], of 0] l]
  obtain pre u rest where
    "story (parse_content tasks_ex ! 0) = None
       \<and> contains ''setup'' (lower (description (parse_content tasks_ex ! 0)))
     \<longrightarrow> phase_of (parse_content tasks_ex ! 0) = ''setup''"
    by (elim exE conjE)
  from mp [OF this conjI [OF s c]]
  have p: "phase_of (parse_content tasks_ex ! 0) = ''setup''" .
  from a b l s c p show ?thesis by (intro conjI)
qed

section \<open>The task parser: where it finds tasks\<close>

text \<open>
  C10, amended. An occurrence of the pattern yields its record when the scan reaches it:
  whatever text comes before it (indentation, other words), as long as no match starts in
  that text, the parser returns the record of the occurrence, followed by the records of
  the text after its match. A text without the character \<open>-\<close> is such a prefix
  (\<open>no_dash_prefix\<close>).
\<close>

theorem occurrence_anywhere:
  assumes "\<forall>k<length pre. match_at task_pattern (drop k (pre @ s)) = None"
    and "match_at task_pattern s = Some (g, rest)"
  shows "parse_content (pre @ s) = mk_task g # parse_content rest"
  using findall_task_prefix [OF assms(1)] findall_task_hit [OF assms(2)]
  by (simp add: parse_content_def)

text \<open>
  C10, as stated, fails: an occurrence inside an earlier match gets no record. In
  \<open>nested_ex\<close> the indented item \<open>T002\<close> on the second line, and in \<open>same_line_ex\<close> the item
  \<open>T002\<close> after other text on the same line, start at position 13; the pattern matches
  there and the text from there on is parsed into the record \<open>T002\<close>, but the whole text is
  parsed into the one record \<open>T001\<close>, whose description has taken the second item.
\<close>

theorem occurrence_anywhere_counterexample:
  "drop 13 nested_ex = ''- [ ] T002 Write tests''
   \<and> \<not> Option.is_none (match_at task_pattern (drop 13 nested_ex))
   \<and> map ident (parse_content (drop 13 nested_ex)) = [''T002'']
   \<and> map ident (parse_content nested_ex) = [''T001'']
   \<and> map description (parse_content nested_ex) = [''- [ ] T002 Write tests'']
   \<and> drop 13 same_line_ex = ''- [ ] T002 b''
   \<and> \<not> Option.is_none (match_at task_pattern (drop 13 same_line_ex))
   \<and> map ident (parse_content (drop 13 same_line_ex)) = [''T002'']
   \<and> map ident (parse_content same_line_ex) = [''T001'']
   \<and> map description (parse_content same_line_ex) = [''a - [ ] T002 b'']"
  by code_simp

theorem occurrence_anywhere_witness:
  "CHR ''-'' \<notin> set prefix_ex
   \<and> (\<exists>g rest. match_at task_pattern item_ex = Some (g, rest)
         \<and> parse_content (prefix_ex @ item_ex) = mk_task g # parse_content rest)
   \<and> parse_content (prefix_ex @ item_ex) =
       [\<lparr>ident = ''T007'', description = ''Write tests'', is_parallel = False,
         story = None, completed = False\<rparr>]"
proof -
  have d: "CHR ''-'' \<notin> set prefix_ex" by (simp add: prefix_ex_def)
  have "\<not> Option.is_none (match_at task_pattern item_ex)" by code_simp
  then obtain g rest where m: "match_at task_pattern item_ex = Some (g, rest)"
    by (cases "match_at task_pattern item_ex") (auto simp: Option.is_none_def)
  from occurrence_anywhere [OF no_dash_prefix [OF d] m]
  have "parse_content (prefix_ex @ item_ex) = mk_task g # parse_content rest" .
  with m have "\<exists>g rest. match_at task_pattern item_ex = Some (g, rest)
         \<and> parse_content (prefix_ex @ item_ex) = mk_task g # parse_content rest" by blast
  moreover have "parse_content (prefix_ex @ item_ex) =
       [\<lparr>ident = ''T007'', description = ''Write tests'', is_parallel = False,
         story = None, completed = False\<rparr>]" by code_simp
  ultimately show ?thesis using d by (intro conjI)
qed

lemma match_at_task_Nil: "match_at task_pattern [] = None"
proof (cases "match_at task_pattern []")
  case None
  then show ?thesis .
next
  case (Some x)
  then obtain g rest where "match_at task_pattern [] = Some (g, rest)" by (cases x) auto
  from task_match_consumes [OF this] show ?thesis by simp
qed

lemma findall_task_none:
  "\<forall>k\<le>length s. match_at task_pattern (drop k s) = None \<Longrightarrow> findall task_pattern s = []"
proof (induction s)
  case Nil
  then show ?case by (simp add: findall_task_Nil)
next
  case (Cons c s)
  from Cons.prems have "match_at task_pattern (c # s) = None" by force
  moreover have "\<forall>k\<le>length s. match_at task_pattern (drop k s) = None"
  proof (intro allI impI)
    fix k assume "k \<le> length s"
    then have "Suc k \<le> length (c # s)" by simp
    with Cons.prems have "match_at task_pattern (drop (Suc k) (c # s)) = None" by blast
    then show "match_at task_pattern (drop k s) = None" by simp
  qed
  ultimately show ?case using Cons.IH by simp
qed

lemma findall_task_some:
  "k \<le> length s \<Longrightarrow> match_at task_pattern (drop k s) \<noteq> None \<Longrightarrow> findall task_pattern s \<noteq> []"
proof (induction s arbitrary: k)
  case Nil
  then show ?case by (simp add: match_at_task_Nil)
next
  case (Cons c s)
  show ?case
  proof (cases "match_at task_pattern (c # s)")
    case None
    with Cons.prems obtain j where k: "k = Suc j" by (cases k) auto
    with Cons.prems have "j \<le> length s" "match_at task_pattern (drop j s) \<noteq> None" by auto
    from Cons.IH [OF this] None show ?thesis by simp
  next
    case (Some x)
    then show ?thesis by (cases x) simp
  qed
qed

lemma scanned_skip:
  assumes "match_at r (c # cs) = None" and "scanned r cs gs"
  shows "scanned r (c # cs) gs"
  using assms(2)
proof cases
  case none
  have "\<forall>k\<le>length (c # cs). match_at r (drop k (c # cs)) = None"
  proof (intro allI impI)
    fix k assume k: "k \<le> length (c # cs)"
    show "match_at r (drop k (c # cs)) = None"
    proof (cases k)
      case 0
      with assms(1) show ?thesis by simp
    next
      case (Suc j)
      with k none(2) show ?thesis by simp
    qed
  qed
  with none(1) show ?thesis by (simp add: scanned.none)
next
  case (hit pre s g rest gs')
  have "\<forall>k<length (c # pre). match_at r (drop k ((c # pre) @ s)) = None"
  proof (intro allI impI)
    fix k assume k: "k < length (c # pre)"
    show "match_at r (drop k ((c # pre) @ s)) = None"
    proof (cases k)
      case 0
      with assms(1) hit(1) show ?thesis by simp
    next
      case (Suc j)
      with k hit(3) show ?thesis by simp
    qed
  qed
  from scanned.hit [OF this hit(4) hit(5)] hit(1,2) show ?thesis by simp
qed

lemma scanned_findall: "scanned task_pattern s (findall task_pattern s)"
proof (induction "length s" arbitrary: s rule: less_induct)
  case less
  show ?case
  proof (cases s)
    case Nil
    have "\<forall>k\<le>length ([]::string). match_at task_pattern (drop k []) = None"
      by (simp add: match_at_task_Nil)
    then have "scanned task_pattern [] []" by (rule scanned.none)
    with Nil show ?thesis by (simp only: findall_task_Nil)
  next
    case (Cons c cs)
    show ?thesis
    proof (cases "match_at task_pattern s")
      case None
      have "scanned task_pattern cs (findall task_pattern cs)"
        using Cons by (intro less) simp
      with None Cons have "scanned task_pattern (c # cs) (findall task_pattern cs)"
        by (intro scanned_skip) simp_all
      with None Cons show ?thesis by simp
    next
      case (Some x)
      obtain g rest where x: "x = (g, rest)" by (cases x)
      with Some have m: "match_at task_pattern s = Some (g, rest)" by simp
      from task_match_consumes [OF m] have "scanned task_pattern rest (findall task_pattern rest)"
        by (rule less)
      with m have "scanned task_pattern ([] @ s) (g # findall task_pattern rest)"
        by (intro scanned.hit) simp_all
      with findall_task_hit [OF m] show ?thesis by simp
    qed
  qed
qed

lemma scanned_unique:
  "scanned task_pattern s gs \<Longrightarrow> gs = findall task_pattern s"
proof (induction rule: scanned.induct)
  case (none s)
  then show ?case by (simp add: findall_task_none)
next
  case (hit pre s g rest gs)
  from findall_task_prefix [OF hit(1)] findall_task_hit [OF hit(2)] hit(4)
  show ?case by simp
qed

text \<open>
  C3, amended. Parsing produces exactly one record for each match of the pattern in the
  content taken as a whole, scanned from left to right, in that order; a match may begin
  on one line and end on a later one. The records are empty exactly when the pattern
  matches at no position of the content; text that is not matched is passed over, and
  there is no error.
\<close>

theorem records_are_the_scan:
  "(\<exists>gs. scanned task_pattern content gs
         \<and> (\<forall>gs'. scanned task_pattern content gs' \<longrightarrow> gs' = gs)
         \<and> parse_content content = map mk_task gs)
   \<and> (parse_content content = []
        \<longleftrightarrow> (\<forall>k\<le>length content. match_at task_pattern (drop k content) = None))"
proof
  have "scanned task_pattern content (findall task_pattern content)
        \<and> (\<forall>gs'. scanned task_pattern content gs' \<longrightarrow> gs' = findall task_pattern content)
        \<and> parse_content content = map mk_task (findall task_pattern content)"
    using scanned_findall scanned_unique by (simp add: parse_content_def)
  then show "\<exists>gs. scanned task_pattern content gs
         \<and> (\<forall>gs'. scanned task_pattern content gs' \<longrightarrow> gs' = gs)
         \<and> parse_content content = map mk_task gs" by (rule exI)
  show "parse_content content = []
        \<longleftrightarrow> (\<forall>k\<le>length content. match_at task_pattern (drop k content) = None)"
  proof
    assume "parse_content content = []"
    then have e: "findall task_pattern content = []" by (simp add: parse_content_def)
    show "\<forall>k\<le>length content. match_at task_pattern (drop k content) = None"
    proof (intro allI impI)
      fix k assume "k \<le> length content"
      with e findall_task_some [of k content]
      show "match_at task_pattern (drop k content) = None" by blast
    qed
  next
    assume "\<forall>k\<le>length content. match_at task_pattern (drop k content) = None"
    then show "parse_content content = []"
      by (simp add: parse_content_def findall_task_none)
  qed
qed

text \<open>
  C3, as stated, fails on the two lines \<open>- [ ]\<close> and \<open>T001 do it\<close>: neither line matches the
  pattern, and parsing yields one record, because the whitespace of the pattern takes the
  line end.
\<close>

theorem records_are_the_scan_counterexample:
  "parse_content split_ex =
     [\<lparr>ident = ''T001'', description = ''do it'', is_parallel = False, story = None,
       completed = False\<rparr>]
   \<and> lines_of split_ex = [''- [ ]'', ''T001 do it'']
   \<and> list_all (\<lambda>l. parse_content l = []) (lines_of split_ex)"
  by code_simp

theorem records_are_the_scan_witness:
  "(\<exists>gs. scanned task_pattern split_ex gs \<and> parse_content split_ex = map mk_task gs
         \<and> length gs = 1)
   \<and> \<not> Option.is_none (match_at task_pattern (drop 0 split_ex))
   \<and> parse_content split_ex \<noteq> []"
proof -
  have l: "length (parse_content split_ex) = 1" by code_simp
  from records_are_the_scan [of split_ex] obtain gs where
    "scanned task_pattern split_ex gs" "parse_content split_ex = map mk_task gs"
    by (elim conjE exE)
  with l have "scanned task_pattern split_ex gs \<and> parse_content split_ex = map mk_task gs
         \<and> length gs = 1" by simp
  then have "\<exists>gs. scanned task_pattern split_ex gs \<and> parse_content split_ex = map mk_task gs
         \<and> length gs = 1" by (rule exI)
  moreover have m: "\<not> Option.is_none (match_at task_pattern (drop 0 split_ex))" by code_simp
  moreover from l have "parse_content split_ex \<noteq> []" by auto
  ultimately show ?thesis by (intro conjI)
qed

end
